theory Spec2Isabelle
  imports Main
begin

section \<open>The node model consumed by the constant folder\<close>

text \<open>
  The folder of \<^verbatim>\<open>torch/csrc/jit/tensorexpr/constant_folder.h\<close> works on the
  expression nodes of the tensor-expression IR. The node classes, the generic mutator,
  the evaluator and the exception classes live in headers that are included by the
  folder but are not part of the verified sources; they are modelled below from the
  specification, each under a comment that says so. Everything in the section
  \<open>The constant folder\<close> is a transcription of the header itself.
\<close>

text \<open>
  Modelled from the spec: the scalar type tags. The folder's evaluation switch lists its
  cases with \<^verbatim>\<open>AT_FORALL_SCALAR_TYPES_AND(Half, TYPE_CASE)\<close>: the seven
  plain scalar types and \<open>Half\<close> (the constructors carry a \<open>T\<close> suffix).
  \<open>BoolT\<close> and \<open>UndefinedT\<close> stand for the tags that reach the
  \<^verbatim>\<open>default\<close> branch of that switch.
\<close>

datatype ScalarType =
  ByteT | CharT | ShortT | IntT | LongT | HalfT | FloatT | DoubleT | BoolT | UndefinedT

datatype Dtype = Dtype (scalar_type: ScalarType) (lanes: nat)

text \<open>
  Modelled from the spec: the two fatal conditions of section 7. The header itself only
  ever throws \<^verbatim>\<open>unsupported_dtype()\<close>.
\<close>

datatype error = unsupported_dtype | unsupported_operator

text \<open>
  The operator kinds named by the switch of \<^verbatim>\<open>newBinaryOpOfType\<close>, and
  \<open>kOther\<close> for every kind that reaches its \<^verbatim>\<open>default\<close> branch.
\<close>

datatype IRNodeType =
  kAdd | kSub | kMul | kDiv | kMod | kMax | kMin | kAnd | kXor | kLshift | kRshift | kOther

text \<open>
  The concrete binary operator classes. \<open>Max\<close> and \<open>Min\<close> carry their
  \<^verbatim>\<open>propagate_nans\<close> flag.
\<close>

datatype BinaryOpKind =
  AddOp | SubOp | MulOp | DivOp | ModOp | MaxOp bool | MinOp bool
  | AndOp | XorOp | LshiftOp | RshiftOp

text \<open>
  Modelled from the spec: an intrinsic's operator kind, a name with its purity flag.
\<close>

datatype IntrinsicsOp = IntrinsicsOp (op_name: string) (op_pure: bool)

text \<open>A variable node: its address, name and dtype.\<close>

datatype Var = Var (var_addr: nat) (name_hint: string) (var_dtype: Dtype)

text \<open>
  Modelled from the spec: the expression nodes of section 3. Nodes are immutable heap
  objects that the folder compares by pointer, so every node carries the address it was
  allocated at as its first field. An immediate \<open>Imm a t v\<close> is the node of class
  \<^verbatim>\<open><t>Imm\<close> (\<^verbatim>\<open>IntImm\<close> for \<open>t = IntT\<close>, \<^verbatim>\<open>FloatImm\<close> for
  \<open>t = FloatT\<close>); its payload \<open>v\<close> is the stored value for the integral types and the
  IEEE bit pattern for the floating types. The base handle of a \<open>Load\<close> is a pointer
  to a variable node.
\<close>

datatype Expr =
    Imm nat ScalarType int
  | VarE Var
  | Broadcast nat (bc_value: Expr) (bc_lanes: nat)
  | Ramp nat (ramp_base: Expr) (ramp_stride: Expr) (ramp_lanes: nat)
  | BinaryOp nat BinaryOpKind Expr Expr
  | Cast nat Dtype Expr
  | Intrinsics nat IntrinsicsOp "Expr list"
  | Load nat Dtype Var Expr Expr

fun addr :: "Expr \<Rightarrow> nat" where
  "addr (Imm a t v) = a"
| "addr (VarE x) = var_addr x"
| "addr (Broadcast a v n) = a"
| "addr (Ramp a b st n) = a"
| "addr (BinaryOp a k l r) = a"
| "addr (Cast a dt src) = a"
| "addr (Intrinsics a f ps) = a"
| "addr (Load a dt h i m) = a"

fun expr_type :: "BinaryOpKind \<Rightarrow> IRNodeType" where
  "expr_type AddOp = kAdd"
| "expr_type SubOp = kSub"
| "expr_type MulOp = kMul"
| "expr_type DivOp = kDiv"
| "expr_type ModOp = kMod"
| "expr_type (MaxOp p) = kMax"
| "expr_type (MinOp p) = kMin"
| "expr_type AndOp = kAnd"
| "expr_type XorOp = kXor"
| "expr_type LshiftOp = kLshift"
| "expr_type RshiftOp = kRshift"

text \<open>
  Modelled from the spec: \<^verbatim>\<open>isPure()\<close>, the purity flag of an intrinsic call.
\<close>

fun isPure :: "IntrinsicsOp \<Rightarrow> bool" where
  "isPure (IntrinsicsOp n p) = p"

text \<open>
  Modelled from the spec: \<^verbatim>\<open>isConstant()\<close>. Section 3: true iff the node is an
  immediate, or it is a pure operator, cast or intrinsic and all of its operand
  sub-expressions are constant. Variables, loads, broadcasts and ramps are not constant.
\<close>

fun isConstant :: "Expr \<Rightarrow> bool" where
  "isConstant (Imm a t v) = True"
| "isConstant (VarE x) = False"
| "isConstant (Broadcast a v n) = False"
| "isConstant (Ramp a b st n) = False"
| "isConstant (BinaryOp a k l r) = (isConstant l \<and> isConstant r)"
| "isConstant (Cast a dt src) = isConstant src"
| "isConstant (Intrinsics a f ps) = (isPure f \<and> list_all isConstant ps)"
| "isConstant (Load a dt h i m) = False"

text \<open>
  Modelled from the spec: \<^verbatim>\<open>dtype()\<close>. An immediate is a scalar of its tag; a
  variable, a cast and a load store their dtype; a broadcast and a ramp take the element
  type of their first operand and their own lane count; a binary node has the dtype its
  operands share, read off the left one; an intrinsic has the dtype of its first
  parameter (a scalar float when it has none).
\<close>

fun dtype :: "Expr \<Rightarrow> Dtype" where
  "dtype (Imm a t v) = Dtype t 1"
| "dtype (VarE x) = var_dtype x"
| "dtype (Broadcast a v n) = Dtype (scalar_type (dtype v)) n"
| "dtype (Ramp a b st n) = Dtype (scalar_type (dtype b)) n"
| "dtype (BinaryOp a k l r) = dtype l"
| "dtype (Cast a dt src) = dt"
| "dtype (Intrinsics a f ps) = (case ps of [] \<Rightarrow> Dtype FloatT 1 | p # qs \<Rightarrow> dtype p)"
| "dtype (Load a dt h i m) = dt"

text \<open>
  The tests \<^verbatim>\<open>dynamic_cast<const IntImm*>(e)\<close> with \<^verbatim>\<open>I->value() == k\<close>,
  \<^verbatim>\<open>dynamic_cast<const FloatImm*>(e)\<close> with \<^verbatim>\<open>I->value() == 1.0f\<close> (the
  single-precision bit pattern of 1.0 is \<open>0x3F800000\<close>), and the casts to
  \<^verbatim>\<open>Broadcast\<close> and \<^verbatim>\<open>Ramp\<close>.
\<close>

fun isIntImm :: "Expr \<Rightarrow> int \<Rightarrow> bool" where
  "isIntImm (Imm a t v) k = (t = IntT \<and> v = k)"
| "isIntImm e k = False"

fun isFloatImmOne :: "Expr \<Rightarrow> bool" where
  "isFloatImmOne (Imm a t v) = (t = FloatT \<and> v = 0x3F800000)"
| "isFloatImmOne e = False"

fun isBroadcast :: "Expr \<Rightarrow> bool" where
  "isBroadcast (Broadcast a v n) = True"
| "isBroadcast e = False"

fun isBroadcastOfIntImm :: "Expr \<Rightarrow> int \<Rightarrow> bool" where
  "isBroadcastOfIntImm (Broadcast a v n) k = isIntImm v k"
| "isBroadcastOfIntImm e k = False"

fun isRamp :: "Expr \<Rightarrow> bool" where
  "isRamp (Ramp a b st n) = True"
| "isRamp e = False"

section \<open>The state of a run\<close>

text \<open>
  A run of the folder allocates nodes and calls the evaluator. The state records the next
  free address and, as a history, the nodes handed to \<^verbatim>\<open>evaluateOp\<close> so far. A
  thrown exception ends the run with \<open>Inl\<close> and the state reached at that point.
\<close>

record State =
  next_addr :: nat
  evaluated :: "Expr list"

type_synonym 'a result = "(error + 'a) \<times> State"

definition alloc :: "State \<Rightarrow> State" where
  "alloc s = s\<lparr>next_addr := Suc (next_addr s)\<rparr>"

section \<open>The constant folder\<close>

text \<open>
  The evaluator \<^verbatim>\<open>ExprEval<SimpleIREvaluator>\<close> is an external collaborator:
  it is the parameter \<open>ev\<close>, giving the payload of the value a node evaluates to.
  The supported tags are the cases of the switch in \<^verbatim>\<open>evaluateOp\<close>.
\<close>

type_synonym evaluator = "Expr \<Rightarrow> int"

fun supported :: "ScalarType \<Rightarrow> bool" where
  "supported BoolT = False"
| "supported UndefinedT = False"
| "supported t = True"

text \<open>
  \<^verbatim>\<open>evaluateOp\<close> (lines 270-286): evaluate the node, switch on the scalar type
  of its dtype, and build the immediate of that scalar type from the value; throw
  \<^verbatim>\<open>unsupported_dtype\<close> in the default case. The call is recorded in the history.
\<close>

definition evaluateOp :: "evaluator \<Rightarrow> Expr \<Rightarrow> State \<Rightarrow> Expr result" where
  "evaluateOp ev v s =
     (let s1 = s\<lparr>evaluated := evaluated s @ [v]\<rparr> in
      if supported (scalar_type (dtype v))
      then (Inr (Imm (next_addr s1) (scalar_type (dtype v)) (ev v)), alloc s1)
      else (Inl unsupported_dtype, s1))"

text \<open>
  \<^verbatim>\<open>newBinaryOpOfType\<close> (lines 288-319): allocate a node of the class named by
  the kind; the option is used by \<open>Max\<close> and \<open>Min\<close> only; the default case
  throws \<^verbatim>\<open>unsupported_dtype\<close>.
\<close>

definition newBinaryOp :: "BinaryOpKind \<Rightarrow> Expr \<Rightarrow> Expr \<Rightarrow> State \<Rightarrow> Expr result" where
  "newBinaryOp k lhs rhs s = (Inr (BinaryOp (next_addr s) k lhs rhs), alloc s)"

fun newBinaryOpOfType ::
  "IRNodeType \<Rightarrow> Expr \<Rightarrow> Expr \<Rightarrow> bool \<Rightarrow> State \<Rightarrow> Expr result" where
  "newBinaryOpOfType kAdd lhs rhs option s = newBinaryOp AddOp lhs rhs s"
| "newBinaryOpOfType kSub lhs rhs option s = newBinaryOp SubOp lhs rhs s"
| "newBinaryOpOfType kMul lhs rhs option s = newBinaryOp MulOp lhs rhs s"
| "newBinaryOpOfType kDiv lhs rhs option s = newBinaryOp DivOp lhs rhs s"
| "newBinaryOpOfType kMod lhs rhs option s = newBinaryOp ModOp lhs rhs s"
| "newBinaryOpOfType kMax lhs rhs option s = newBinaryOp (MaxOp option) lhs rhs s"
| "newBinaryOpOfType kMin lhs rhs option s = newBinaryOp (MinOp option) lhs rhs s"
| "newBinaryOpOfType kAnd lhs rhs option s = newBinaryOp AndOp lhs rhs s"
| "newBinaryOpOfType kXor lhs rhs option s = newBinaryOp XorOp lhs rhs s"
| "newBinaryOpOfType kLshift lhs rhs option s = newBinaryOp LshiftOp lhs rhs s"
| "newBinaryOpOfType kRshift lhs rhs option s = newBinaryOp RshiftOp lhs rhs s"
| "newBinaryOpOfType kOther lhs rhs option s = (Inl unsupported_dtype, s)"

text \<open>
  The closing steps shared by every binary rule (lines 68-79, 92-103, 150-161, 174-185
  and 331-342): reuse the node \<open>v = BinaryOp a k l r\<close> when both folded operands are
  the original pointers, otherwise build a new node of the same kind; return it unless
  both folded operands are constant, and evaluate it when they are.
\<close>

definition rebuildAndEvaluate ::
  "evaluator \<Rightarrow> nat \<Rightarrow> BinaryOpKind \<Rightarrow> Expr \<Rightarrow> Expr \<Rightarrow> Expr \<Rightarrow> Expr \<Rightarrow> bool
     \<Rightarrow> State \<Rightarrow> Expr result" where
  "rebuildAndEvaluate ev a k l r lhs rhs option s =
     (case (if addr lhs \<noteq> addr l \<or> addr rhs \<noteq> addr r
            then newBinaryOpOfType (expr_type k) lhs rhs option s
            else (Inr (BinaryOp a k l r), s)) of
        (Inl e, s1) \<Rightarrow> (Inl e, s1)
      | (Inr node, s1) \<Rightarrow>
          if \<not> isConstant lhs \<or> \<not> isConstant rhs then (Inr node, s1)
          else evaluateOp ev node s1)"

text \<open>
  The first two lines of every binary rule: fold the left operand, then the right one,
  with the mutator \<open>m\<close>.
\<close>

definition mutateOperands ::
  "(Expr \<Rightarrow> State \<Rightarrow> Expr result) \<Rightarrow> Expr \<Rightarrow> Expr \<Rightarrow> State \<Rightarrow> (Expr \<times> Expr) result" where
  "mutateOperands m l r s =
     (case m l s of
        (Inl e, s1) \<Rightarrow> (Inl e, s1)
      | (Inr lhs, s1) \<Rightarrow>
          (case m r s1 of
             (Inl e, s2) \<Rightarrow> (Inl e, s2)
           | (Inr rhs, s2) \<Rightarrow> (Inr (lhs, rhs), s2)))"

lemma mutateOperands_cong [fundef_cong]:
  assumes "l = l'" "r = r'" "s = s'"
    and "\<And>t. m l' t = m' l' t" and "\<And>t. m r' t = m' r' t"
  shows "mutateOperands m l r s = mutateOperands m' l' r' s'"
  using assms unfolding mutateOperands_def by (auto split: prod.splits sum.splits)

text \<open>
  \<^verbatim>\<open>mutateBinaryOp\<close> (lines 321-343), the rule of \<open>Mod\<close>, \<open>And\<close>,
  \<open>Xor\<close>, \<open>Lshift\<close>, \<open>Rshift\<close>, \<open>Max\<close> and \<open>Min\<close>; the mutator is
  its argument, as in the source.
\<close>

definition mutateBinaryOp ::
  "evaluator \<Rightarrow> (Expr \<Rightarrow> State \<Rightarrow> Expr result) \<Rightarrow> nat \<Rightarrow> BinaryOpKind \<Rightarrow> Expr \<Rightarrow> Expr
     \<Rightarrow> bool \<Rightarrow> State \<Rightarrow> Expr result" where
  "mutateBinaryOp ev m a k l r option s =
     (case mutateOperands m l r s of
        (Inl e, s2) \<Rightarrow> (Inl e, s2)
      | (Inr (lhs_new, rhs_new), s2) \<Rightarrow> rebuildAndEvaluate ev a k l r lhs_new rhs_new option s2)"

lemma mutateBinaryOp_cong [fundef_cong]:
  assumes "l = l'" "r = r'" "s = s'"
    and "\<And>t. m l' t = m' l' t" and "\<And>t. m r' t = m' r' t"
  shows "mutateBinaryOp ev m a k l r option s = mutateBinaryOp ev m' a k l' r' option s'"
  using assms unfolding mutateBinaryOp_def mutateOperands_def
  by (auto split: prod.splits sum.splits)

text \<open>
  The loop of \<^verbatim>\<open>mutate(const Intrinsics*)\<close> (lines 228-234): fold the
  parameters in order and collect the results. The flags \<^verbatim>\<open>changed\<close> and
  \<^verbatim>\<open>allConstant\<close> that the loop accumulates are read off the two lists.
\<close>

fun mutateParams ::
  "(Expr \<Rightarrow> State \<Rightarrow> Expr result) \<Rightarrow> Expr list \<Rightarrow> State \<Rightarrow> (Expr list) result" where
  "mutateParams m [] s = (Inr [], s)"
| "mutateParams m (p # ps) s =
     (case m p s of
        (Inl e, s1) \<Rightarrow> (Inl e, s1)
      | (Inr new_child, s1) \<Rightarrow>
          (case mutateParams m ps s1 of
             (Inl e, s2) \<Rightarrow> (Inl e, s2)
           | (Inr new_params, s2) \<Rightarrow> (Inr (new_child # new_params), s2)))"

lemma mutateParams_cong [fundef_cong]:
  assumes "ps = ps'" "s = s'" and "\<And>p t. p \<in> set ps' \<Longrightarrow> m p t = m' p t"
  shows "mutateParams m ps s = mutateParams m' ps' s'"
  using assms(3) unfolding assms(1,2)
  by (induction ps' arbitrary: s') (auto split: prod.splits sum.splits)

text \<open>
  Lines 42-46: \<^verbatim>\<open>Ramp::make(ExprHandle(b->value()) + ExprHandle(r->base()),
  ExprHandle(r->stride()), r->lanes())\<close>. The sum is allocated first, then the ramp
  around it.
\<close>

definition makeRamp :: "Expr \<Rightarrow> Expr \<Rightarrow> State \<Rightarrow> Expr \<times> State" where
  "makeRamp b r s =
     (Ramp (Suc (next_addr s)) (BinaryOp (next_addr s) AddOp (bc_value b) (ramp_base r))
        (ramp_stride r) (ramp_lanes r),
      alloc (alloc s))"

text \<open>
  \<^verbatim>\<open>accept_mutator\<close> on a \<^verbatim>\<open>ConstantFolder\<close>: the dispatch on the class
  of the node to the \<^verbatim>\<open>mutate\<close> overloads of lines 18-267. The first four
  equations are modelled from the spec: they are the generic mutator's rules for the
  nodes the folder does not override (an immediate and a variable are returned as they
  are; a broadcast and a ramp fold their operands and are rebuilt only if an operand
  changed).
\<close>

function mutate :: "evaluator \<Rightarrow> Expr \<Rightarrow> State \<Rightarrow> Expr result" where
  "mutate ev (Imm a t v) s = (Inr (Imm a t v), s)"
| "mutate ev (VarE x) s = (Inr (VarE x), s)"
| "mutate ev (Broadcast a v n) s =
     (case mutate ev v s of
        (Inl e, s1) \<Rightarrow> (Inl e, s1)
      | (Inr value_new, s1) \<Rightarrow>
          if addr v = addr value_new then (Inr (Broadcast a v n), s1)
          else (Inr (Broadcast (next_addr s1) value_new n), alloc s1))"
| "mutate ev (Ramp a b st n) s =
     (case mutateOperands (mutate ev) b st s of
        (Inl e, s2) \<Rightarrow> (Inl e, s2)
      | (Inr (base_new, stride_new), s2) \<Rightarrow>
          if addr b = addr base_new \<and> addr st = addr stride_new then (Inr (Ramp a b st n), s2)
          else (Inr (Ramp (next_addr s2) base_new stride_new n), alloc s2))"
| "mutate ev (BinaryOp a AddOp l r) s =
     (case mutateOperands (mutate ev) l r s of
        (Inl e, s2) \<Rightarrow> (Inl e, s2)
      | (Inr (lhs, rhs), s2) \<Rightarrow>
          if isIntImm lhs 0 then (Inr rhs, s2)
          else if isIntImm rhs 0 then (Inr lhs, s2)
          else if isBroadcastOfIntImm lhs 0 then (Inr rhs, s2)
          else if isBroadcast lhs \<and> isRamp rhs
            then mutate ev (fst (makeRamp lhs rhs s2)) (snd (makeRamp lhs rhs s2))
          else if isBroadcastOfIntImm rhs 0 then (Inr lhs, s2)
          else if isBroadcast rhs \<and> isRamp lhs
            then mutate ev (fst (makeRamp rhs lhs s2)) (snd (makeRamp rhs lhs s2))
          else rebuildAndEvaluate ev a AddOp l r lhs rhs False s2)"
| "mutate ev (BinaryOp a SubOp l r) s =
     (case mutateOperands (mutate ev) l r s of
        (Inl e, s2) \<Rightarrow> (Inl e, s2)
      | (Inr (lhs, rhs), s2) \<Rightarrow>
          if isIntImm rhs 0 then (Inr lhs, s2)
          else rebuildAndEvaluate ev a SubOp l r lhs rhs False s2)"
| "mutate ev (BinaryOp a MulOp l r) s =
     (case mutateOperands (mutate ev) l r s of
        (Inl e, s2) \<Rightarrow> (Inl e, s2)
      | (Inr (lhs, rhs), s2) \<Rightarrow>
          if isIntImm lhs 1 then (Inr rhs, s2)
          else if isIntImm rhs 1 then (Inr lhs, s2)
          else if isFloatImmOne lhs then (Inr rhs, s2)
          else if isFloatImmOne rhs then (Inr lhs, s2)
          else if isBroadcastOfIntImm lhs 1 then (Inr rhs, s2)
          else if isBroadcastOfIntImm rhs 1 then (Inr lhs, s2)
          else rebuildAndEvaluate ev a MulOp l r lhs rhs False s2)"
| "mutate ev (BinaryOp a DivOp l r) s =
     (case mutateOperands (mutate ev) l r s of
        (Inl e, s2) \<Rightarrow> (Inl e, s2)
      | (Inr (lhs, rhs), s2) \<Rightarrow>
          if isIntImm rhs 1 then (Inr lhs, s2)
          else rebuildAndEvaluate ev a DivOp l r lhs rhs False s2)"
| "mutate ev (BinaryOp a ModOp l r) s = mutateBinaryOp ev (mutate ev) a ModOp l r False s"
| "mutate ev (BinaryOp a AndOp l r) s = mutateBinaryOp ev (mutate ev) a AndOp l r False s"
| "mutate ev (BinaryOp a XorOp l r) s = mutateBinaryOp ev (mutate ev) a XorOp l r False s"
| "mutate ev (BinaryOp a LshiftOp l r) s = mutateBinaryOp ev (mutate ev) a LshiftOp l r False s"
| "mutate ev (BinaryOp a RshiftOp l r) s = mutateBinaryOp ev (mutate ev) a RshiftOp l r False s"
| "mutate ev (BinaryOp a (MaxOp p) l r) s = mutateBinaryOp ev (mutate ev) a (MaxOp p) l r p s"
| "mutate ev (BinaryOp a (MinOp p) l r) s = mutateBinaryOp ev (mutate ev) a (MinOp p) l r p s"
| "mutate ev (Cast a dt src) s =
     (if isConstant src then evaluateOp ev (Cast a dt src) s
      else (Inr (Cast a dt src), s))"
| "mutate ev (Intrinsics a f ps) s =
     (case mutateParams (mutate ev) ps s of
        (Inl e, s1) \<Rightarrow> (Inl e, s1)
      | (Inr new_params, s1) \<Rightarrow>
          (let changed = (map addr ps \<noteq> map addr new_params);
               allConstant = list_all isConstant new_params;
               node = (if changed then Intrinsics (next_addr s1) f new_params
                       else Intrinsics a f ps);
               s2 = (if changed then alloc s1 else s1)
           in if \<not> allConstant \<or> \<not> isPure f then (Inr node, s2)
              else evaluateOp ev node s2))"
| "mutate ev (Load a dt h i m) s =
     (case mutateOperands (mutate ev) i m s of
        (Inl e, s2) \<Rightarrow> (Inl e, s2)
      | (Inr (new_index, new_mask), s2) \<Rightarrow>
          if addr new_index = addr i \<and> addr new_mask = addr m then (Inr (Load a dt h i m), s2)
          else (Inr (Load (next_addr s2) dt h new_index new_mask), alloc s2))"
  by pat_completeness auto

subsection \<open>Termination\<close>

text \<open>
  The only call that does not descend into an operand is the re-fold of the ramp built by
  the \<open>Add\<close> rule. It terminates because folding never makes a node larger, so the new
  ramp is smaller than the sum it replaces.
\<close>

lemma mutateOperands_Inr:
  "mutateOperands m l r s = (Inr (lhs, rhs), s2) \<longleftrightarrow>
     (\<exists>s1. m l s = (Inr lhs, s1) \<and> m r s1 = (Inr rhs, s2))"
  by (auto simp: mutateOperands_def split: prod.splits sum.splits)

lemma mutateParams_all2:
  assumes "mutateParams m ps s = (Inr ps', s')"
    and "\<And>p t x t'. p \<in> set ps \<Longrightarrow> m p t = (Inr x, t') \<Longrightarrow> Q p x"
  shows "list_all2 Q ps ps'"
  using assms
proof (induction ps arbitrary: s ps' s')
  case Nil
  then show ?case by simp
next
  case (Cons p ps)
  from Cons.prems(1) obtain x s1 xs where
    1: "m p s = (Inr x, s1)" and 2: "mutateParams m ps s1 = (Inr xs, s')" and 3: "ps' = x # xs"
    by (auto split: prod.splits sum.splits)
  have "Q p x" using Cons.prems(2) 1 by simp
  moreover have "list_all2 Q ps xs" using Cons.IH [OF 2] Cons.prems(2) by simp
  ultimately show ?case using 3 by simp
qed

lemma size_list_all2_le:
  "list_all2 (\<lambda>p x. size x \<le> size p) ps xs \<Longrightarrow> size_list size xs \<le> size_list size ps"
  by (induction rule: list_all2_induct) auto

lemma newBinaryOpOfType_expr_type:
  "\<exists>k'. newBinaryOpOfType (expr_type k) lhs rhs opt s
          = (Inr (BinaryOp (next_addr s) k' lhs rhs), alloc s) \<and> expr_type k' = expr_type k"
  by (cases k) (auto simp: newBinaryOp_def)

lemma evaluateOp_Inr:
  "evaluateOp ev v s = (Inr e', s') \<Longrightarrow>
     e' = Imm (next_addr s) (scalar_type (dtype v)) (ev v) \<and> supported (scalar_type (dtype v))
     \<and> s' = alloc (s\<lparr>evaluated := evaluated s @ [v]\<rparr>)"
  by (auto simp: evaluateOp_def Let_def alloc_def split: if_splits)

lemma rebuildAndEvaluate_size:
  assumes "rebuildAndEvaluate ev a k l r lhs rhs opt s = (Inr e', s')"
    and "size lhs \<le> size l" and "size rhs \<le> size r"
  shows "size e' \<le> Suc (size l + size r)"
proof -
  obtain k' where k': "newBinaryOpOfType (expr_type k) lhs rhs opt s
          = (Inr (BinaryOp (next_addr s) k' lhs rhs), alloc s)"
    using newBinaryOpOfType_expr_type by blast
  show ?thesis
    using assms unfolding rebuildAndEvaluate_def k'
    by (auto split: if_splits dest!: evaluateOp_Inr)
qed

lemma makeRamp_size:
  "isBroadcast b \<Longrightarrow> isRamp r \<Longrightarrow> size (fst (makeRamp b r s)) = size b + size r"
  by (cases b; cases r) (auto simp: makeRamp_def)

lemma operands_size:
  assumes "\<And>t e' s'. m l t = (Inr e', s') \<Longrightarrow> size e' \<le> size l"
    and "\<And>t e' s'. m r t = (Inr e', s') \<Longrightarrow> size e' \<le> size r"
    and "mutateOperands m l r s = (Inr (lhs, rhs), s2)"
  shows "size lhs \<le> size l \<and> size rhs \<le> size r"
  using assms by (auto simp: mutateOperands_Inr)

lemma mutateBinaryOp_size:
  assumes "\<And>t e' s'. m l t = (Inr e', s') \<Longrightarrow> size e' \<le> size l"
    and "\<And>t e' s'. m r t = (Inr e', s') \<Longrightarrow> size e' \<le> size r"
    and "mutateBinaryOp ev m a k l r opt s = (Inr e', s')"
  shows "size e' \<le> Suc (size l + size r)"
proof -
  from assms(3) obtain lhs rhs s2 where
    ops: "mutateOperands m l r s = (Inr (lhs, rhs), s2)"
    and re: "rebuildAndEvaluate ev a k l r lhs rhs opt s2 = (Inr e', s')"
    by (auto simp: mutateBinaryOp_def split: prod.splits sum.splits)
  have "size lhs \<le> size l \<and> size rhs \<le> size r"
    using assms(1,2) ops by (rule operands_size)
  with re show ?thesis
    by (auto dest: rebuildAndEvaluate_size)
qed

lemma mutate_size:
  "mutate_dom (ev, e, s) \<Longrightarrow> mutate ev e s = (Inr e', s') \<Longrightarrow> size e' \<le> size e"
proof (induction arbitrary: e' s' rule: mutate.pinduct)
  case (3 ev a v n s)
  then show ?case
    by (fastforce simp: mutate.psimps split: prod.splits sum.splits if_splits)
next
  case (4 ev a b st n s)
  from "4.prems" "4.hyps" obtain lhs rhs s2 where
    ops: "mutateOperands (mutate ev) b st s = (Inr (lhs, rhs), s2)"
    by (auto simp: mutate.psimps split: prod.splits sum.splits)
  have "size lhs \<le> size b \<and> size rhs \<le> size st"
    using "4.IH" ops by (rule operands_size)
  with "4.prems" "4.hyps" ops show ?case
    by (auto simp: mutate.psimps split: if_splits)
next
  case (5 ev a l r s)
  from "5.prems" "5.hyps" obtain lhs rhs s2 where
    ops: "mutateOperands (mutate ev) l r s = (Inr (lhs, rhs), s2)"
    by (auto simp: mutate.psimps split: prod.splits sum.splits)
  have "size lhs \<le> size l \<and> size rhs \<le> size r"
    using "5.IH"(1,2) ops by (rule operands_size)
  then show ?case
    using "5.prems" "5.hyps" ops "5.IH"(3) [OF ops [symmetric] refl refl]
      "5.IH"(4) [OF ops [symmetric] refl refl]
    by (auto simp: mutate.psimps makeRamp_size split: if_splits dest!: rebuildAndEvaluate_size)
next
  case (6 ev a l r s)
  from "6.prems" "6.hyps" obtain lhs rhs s2 where
    ops: "mutateOperands (mutate ev) l r s = (Inr (lhs, rhs), s2)"
    by (auto simp: mutate.psimps split: prod.splits sum.splits)
  have "size lhs \<le> size l \<and> size rhs \<le> size r"
    using "6.IH" ops by (rule operands_size)
  with "6.prems" "6.hyps" ops show ?case
    by (auto simp: mutate.psimps split: if_splits dest!: rebuildAndEvaluate_size)
next
  case (7 ev a l r s)
  from "7.prems" "7.hyps" obtain lhs rhs s2 where
    ops: "mutateOperands (mutate ev) l r s = (Inr (lhs, rhs), s2)"
    by (auto simp: mutate.psimps split: prod.splits sum.splits)
  have "size lhs \<le> size l \<and> size rhs \<le> size r"
    using "7.IH" ops by (rule operands_size)
  with "7.prems" "7.hyps" ops show ?case
    by (auto simp: mutate.psimps split: if_splits dest!: rebuildAndEvaluate_size)
next
  case (8 ev a l r s)
  from "8.prems" "8.hyps" obtain lhs rhs s2 where
    ops: "mutateOperands (mutate ev) l r s = (Inr (lhs, rhs), s2)"
    by (auto simp: mutate.psimps split: prod.splits sum.splits)
  have "size lhs \<le> size l \<and> size rhs \<le> size r"
    using "8.IH" ops by (rule operands_size)
  with "8.prems" "8.hyps" ops show ?case
    by (auto simp: mutate.psimps split: if_splits dest!: rebuildAndEvaluate_size)
next
  case (9 ev a l r s)
  have "size e' \<le> Suc (size l + size r)"
    if "mutateBinaryOp ev (mutate ev) a k l r opt s = (Inr e', s')" for k opt
    using "9.IH" that by (rule mutateBinaryOp_size)
  with "9.prems" "9.hyps" show ?case by (simp add: mutate.psimps)
next
  case (10 ev a l r s)
  have "size e' \<le> Suc (size l + size r)"
    if "mutateBinaryOp ev (mutate ev) a k l r opt s = (Inr e', s')" for k opt
    using "10.IH" that by (rule mutateBinaryOp_size)
  with "10.prems" "10.hyps" show ?case by (simp add: mutate.psimps)
next
  case (11 ev a l r s)
  have "size e' \<le> Suc (size l + size r)"
    if "mutateBinaryOp ev (mutate ev) a k l r opt s = (Inr e', s')" for k opt
    using "11.IH" that by (rule mutateBinaryOp_size)
  with "11.prems" "11.hyps" show ?case by (simp add: mutate.psimps)
next
  case (12 ev a l r s)
  have "size e' \<le> Suc (size l + size r)"
    if "mutateBinaryOp ev (mutate ev) a k l r opt s = (Inr e', s')" for k opt
    using "12.IH" that by (rule mutateBinaryOp_size)
  with "12.prems" "12.hyps" show ?case by (simp add: mutate.psimps)
next
  case (13 ev a l r s)
  have "size e' \<le> Suc (size l + size r)"
    if "mutateBinaryOp ev (mutate ev) a k l r opt s = (Inr e', s')" for k opt
    using "13.IH" that by (rule mutateBinaryOp_size)
  with "13.prems" "13.hyps" show ?case by (simp add: mutate.psimps)
next
  case (14 ev a p l r s)
  have "size e' \<le> Suc (size l + size r)"
    if "mutateBinaryOp ev (mutate ev) a k l r opt s = (Inr e', s')" for k opt
    using "14.IH" that by (rule mutateBinaryOp_size)
  with "14.prems" "14.hyps" show ?case by (simp add: mutate.psimps)
next
  case (15 ev a p l r s)
  have "size e' \<le> Suc (size l + size r)"
    if "mutateBinaryOp ev (mutate ev) a k l r opt s = (Inr e', s')" for k opt
    using "15.IH" that by (rule mutateBinaryOp_size)
  with "15.prems" "15.hyps" show ?case by (simp add: mutate.psimps)
next
  case (17 ev a f ps s)
  from "17.prems" "17.hyps" obtain xs s1 where
    ps: "mutateParams (mutate ev) ps s = (Inr xs, s1)"
    by (auto simp: mutate.psimps split: prod.splits sum.splits)
  have "list_all2 (\<lambda>p x. size x \<le> size p) ps xs"
    using ps "17.IH" by (rule mutateParams_all2)
  then have "size_list size xs \<le> size_list size ps" by (rule size_list_all2_le)
  then show ?case
    using "17.prems" "17.hyps" ps
    by (auto simp: mutate.psimps Let_def split: if_splits dest!: evaluateOp_Inr)
next
  case (18 ev a dt h i m s)
  from "18.prems" "18.hyps" obtain lhs rhs s2 where
    ops: "mutateOperands (mutate ev) i m s = (Inr (lhs, rhs), s2)"
    by (auto simp: mutate.psimps split: prod.splits sum.splits)
  have "size lhs \<le> size i \<and> size rhs \<le> size m"
    using "18.IH" ops by (rule operands_size)
  with "18.prems" "18.hyps" ops show ?case
    by (auto simp: mutate.psimps split: if_splits)
qed (auto simp: mutate.psimps split: if_splits dest!: evaluateOp_Inr)

lemma refold_smaller:
  assumes "(Inr b, y) = mutateOperands (mutate ev) l r s" and "(xa, ya) = b"
    and "\<And>t. mutate_dom (ev, l, t)" and "\<And>t. mutate_dom (ev, r, t)"
  shows "size xa + size ya < Suc (size l + size r)"
proof -
  from assms(1,2) have "mutateOperands (mutate ev) l r s = (Inr (xa, ya), y)" by simp
  then obtain s1 where 1: "mutate ev l s = (Inr xa, s1)" and 2: "mutate ev r s1 = (Inr ya, y)"
    by (auto simp: mutateOperands_Inr)
  have "size xa \<le> size l" using assms(3) 1 by (rule mutate_size)
  moreover have "size ya \<le> size r" using assms(4) 2 by (rule mutate_size)
  ultimately show ?thesis by simp
qed

termination mutate
  apply (relation "measure (\<lambda>(ev, e, s). size e)")
  apply simp_all
  subgoal for ev l r s x y b xa ya
    using refold_smaller [of b y ev l r s xa ya] by (simp add: makeRamp_size case_prod_beta)
  subgoal for ev l r s x y b xa ya
    using refold_smaller [of b y ev l r s xa ya] by (simp add: makeRamp_size case_prod_beta)
  subgoal for ps p
    by (induction ps) auto
  done

section \<open>Comparing results\<close>

text \<open>
  Two nodes are structurally equal when they differ only in the addresses of the nodes
  they are built from. A variable is its node, so the address of a variable is kept.
  Two outcomes of a run are the same when they end in the same state and either raise the
  same condition or return structurally equal nodes.
\<close>

fun strip :: "Expr \<Rightarrow> Expr" where
  "strip (Imm a t v) = Imm 0 t v"
| "strip (VarE x) = VarE x"
| "strip (Broadcast a v n) = Broadcast 0 (strip v) n"
| "strip (Ramp a b st n) = Ramp 0 (strip b) (strip st) n"
| "strip (BinaryOp a k l r) = BinaryOp 0 k (strip l) (strip r)"
| "strip (Cast a dt src) = Cast 0 dt (strip src)"
| "strip (Intrinsics a f ps) = Intrinsics 0 f (map strip ps)"
| "strip (Load a dt h i m) = Load 0 dt h (strip i) (strip m)"

fun same_outcome :: "Expr result \<Rightarrow> Expr result \<Rightarrow> bool" where
  "same_outcome (Inr x, s) (Inr y, t) = (strip x = strip y \<and> s = t)"
| "same_outcome (Inl e, s) (Inl f, t) = (e = f \<and> s = t)"
| "same_outcome p q = False"

fun isImm :: "Expr \<Rightarrow> bool" where
  "isImm (Imm a t v) = True"
| "isImm e = False"

section \<open>Well-formed inputs\<close>

text \<open>
  The addresses stand for pointers, so a run starts from a node whose addresses behave
  like pointers: two sub-nodes with the same address are the same node, and every address
  in use lies below the next free one. The base handle of a load is not an operand and is
  not counted among its sub-nodes.
\<close>

fun nodes :: "Expr \<Rightarrow> Expr list" where
  "nodes (Imm a t v) = [Imm a t v]"
| "nodes (VarE x) = [VarE x]"
| "nodes (Broadcast a v n) = Broadcast a v n # nodes v"
| "nodes (Ramp a b st n) = Ramp a b st n # nodes b @ nodes st"
| "nodes (BinaryOp a k l r) = BinaryOp a k l r # nodes l @ nodes r"
| "nodes (Cast a dt src) = Cast a dt src # nodes src"
| "nodes (Intrinsics a f ps) = Intrinsics a f ps # concat (map nodes ps)"
| "nodes (Load a dt h i m) = Load a dt h i m # nodes i @ nodes m"

definition well_formed :: "Expr \<Rightarrow> State \<Rightarrow> bool" where
  "well_formed e s =
     list_all (\<lambda>x. addr x < next_addr s \<and> list_all (\<lambda>y. addr x = addr y \<longrightarrow> x = y) (nodes e))
       (nodes e)"

text \<open>
  For the proofs, the same thing said with a heap: a partial map from addresses to nodes
  that holds every sub-node at its address, with all its addresses below the next free
  one. A run only ever extends the heap.
\<close>

definition in_heap :: "(nat \<rightharpoonup> Expr) \<Rightarrow> Expr \<Rightarrow> bool" where
  "in_heap H e = (\<forall>x \<in> set (nodes e). H (addr x) = Some x)"

definition heap_ok :: "(nat \<rightharpoonup> Expr) \<Rightarrow> State \<Rightarrow> bool" where
  "heap_ok H s = (\<forall>a \<in> dom H. a < next_addr s)"

definition grows :: "(nat \<rightharpoonup> Expr) \<Rightarrow> State \<Rightarrow> Expr list \<Rightarrow> bool" where
  "grows H s xs = (\<exists>H'. H \<subseteq>\<^sub>m H' \<and> heap_ok H' s \<and> (\<forall>x \<in> set xs. in_heap H' x))"

section \<open>The binary rules as a table\<close>

text \<open>
  For the proofs, what a binary rule does with its folded operands, read as a table: the
  operand an identity rule returns, if one applies; the broadcast and the ramp of the
  re-fold rule, if that applies; and otherwise the closing steps, with the option that
  the rule passes on (\<^verbatim>\<open>propagate_nans\<close> for \<open>Max\<close> and \<open>Min\<close>). The lemma
  \<open>mutate_BinaryOp\<close> below shows that this is what the equations of \<open>mutate\<close> do.
\<close>

fun option_of :: "BinaryOpKind \<Rightarrow> bool" where
  "option_of (MaxOp p) = p"
| "option_of (MinOp p) = p"
| "option_of k = False"

fun identity :: "BinaryOpKind \<Rightarrow> Expr \<Rightarrow> Expr \<Rightarrow> Expr option" where
  "identity AddOp lhs rhs =
     (if isIntImm lhs 0 then Some rhs
      else if isIntImm rhs 0 then Some lhs
      else if isBroadcastOfIntImm lhs 0 then Some rhs
      else if isBroadcast lhs \<and> isRamp rhs then None
      else if isBroadcastOfIntImm rhs 0 then Some lhs
      else None)"
| "identity SubOp lhs rhs = (if isIntImm rhs 0 then Some lhs else None)"
| "identity MulOp lhs rhs =
     (if isIntImm lhs 1 then Some rhs
      else if isIntImm rhs 1 then Some lhs
      else if isFloatImmOne lhs then Some rhs
      else if isFloatImmOne rhs then Some lhs
      else if isBroadcastOfIntImm lhs 1 then Some rhs
      else if isBroadcastOfIntImm rhs 1 then Some lhs
      else None)"
| "identity DivOp lhs rhs = (if isIntImm rhs 1 then Some lhs else None)"
| "identity k lhs rhs = None"

fun refold :: "BinaryOpKind \<Rightarrow> Expr \<Rightarrow> Expr \<Rightarrow> (Expr \<times> Expr) option" where
  "refold AddOp lhs rhs =
     (if isBroadcast lhs \<and> isRamp rhs then Some (lhs, rhs)
      else if isBroadcast rhs \<and> isRamp lhs then Some (rhs, lhs)
      else None)"
| "refold k lhs rhs = None"

definition afterOperands ::
  "evaluator \<Rightarrow> nat \<Rightarrow> BinaryOpKind \<Rightarrow> Expr \<Rightarrow> Expr \<Rightarrow> Expr \<Rightarrow> Expr \<Rightarrow> State \<Rightarrow> Expr result" where
  "afterOperands ev a k l r lhs rhs s2 =
     (case identity k lhs rhs of
        Some x \<Rightarrow> (Inr x, s2)
      | None \<Rightarrow>
          (case refold k lhs rhs of
             Some (b, rm) \<Rightarrow> mutate ev (fst (makeRamp b rm s2)) (snd (makeRamp b rm s2))
           | None \<Rightarrow> rebuildAndEvaluate ev a k l r lhs rhs (option_of k) s2))"

section \<open>The evaluator's precondition\<close>

text \<open>
  The nodes the evaluator may be called on: a binary node whose two operands are
  constant, a cast whose source is constant, and a pure intrinsic call whose parameters
  are all constant. A run respects this when every call it adds to the history is one of
  these.
\<close>

fun evaluation_allowed :: "Expr \<Rightarrow> bool" where
  "evaluation_allowed (BinaryOp a k l r) = (isConstant l \<and> isConstant r)"
| "evaluation_allowed (Cast a dt src) = isConstant src"
| "evaluation_allowed (Intrinsics a f ps) = (list_all isConstant ps \<and> isPure f)"
| "evaluation_allowed e = False"

definition traced :: "State \<Rightarrow> State \<Rightarrow> bool" where
  "traced s s' =
     (\<exists>calls. evaluated s' = evaluated s @ calls \<and> list_all evaluation_allowed calls)"

section \<open>Folded nodes\<close>

text \<open>
  A node is stable when folding it, from any state, returns the node itself and leaves the
  state as it is: nothing is allocated and the evaluator is not called.
\<close>

definition stable :: "evaluator \<Rightarrow> Expr \<Rightarrow> bool" where
  "stable ev x = (\<forall>t. mutate ev x t = (Inr x, t))"

section \<open>Constant expressions and the evaluator\<close>

text \<open>
  The expressions that fold to an immediate: built from immediates, binary operators,
  casts and pure intrinsic calls, where the two operands of a binary operator have the
  same scalar type and every node that is handed to the evaluator has a scalar type of
  the evaluation switch. A cast is evaluated as a whole, so its source only has to be
  constant.
\<close>

fun collapsible :: "Expr \<Rightarrow> bool" where
  "collapsible (Imm a t v) = True"
| "collapsible (BinaryOp a k l r) =
     (collapsible l \<and> collapsible r
      \<and> scalar_type (dtype l) = scalar_type (dtype r) \<and> supported (scalar_type (dtype l)))"
| "collapsible (Cast a dt src) = (isConstant src \<and> supported (scalar_type dt))"
| "collapsible (Intrinsics a f ps) =
     (isPure f \<and> list_all collapsible ps
      \<and> supported (scalar_type (dtype (Intrinsics a f ps))))"
| "collapsible e = False"

text \<open>
  The immediate that direct evaluation of \<open>e\<close> gives: of the scalar type of \<open>e\<close>, with
  the value that the evaluator computes for \<open>e\<close>.
\<close>

definition immediate_of :: "evaluator \<Rightarrow> Expr \<Rightarrow> Expr \<Rightarrow> bool" where
  "immediate_of ev e x = (\<exists>c. x = Imm c (scalar_type (dtype e)) (ev e))"

text \<open>
  What the folder relies on in the evaluator. It is compositional: an immediate has its
  own value, and replacing constant operands by the immediates of their values does not
  change the value of a node. And it respects the identities the folder applies: adding
  or subtracting the integer 0, and multiplying or dividing by the integer 1 or
  multiplying by the float 1.0, give the other operand's value.
\<close>

definition compositional :: "evaluator \<Rightarrow> bool" where
  "compositional ev =
     ((\<forall>a t v. ev (Imm a t v) = v)
      \<and> (\<forall>a a' k l r lhs rhs. isConstant l \<and> isConstant r
            \<and> immediate_of ev l lhs \<and> immediate_of ev r rhs
            \<longrightarrow> ev (BinaryOp a' k lhs rhs) = ev (BinaryOp a k l r))
      \<and> (\<forall>a a' f ps xs. list_all isConstant ps \<and> list_all2 (immediate_of ev) ps xs
            \<longrightarrow> ev (Intrinsics a' f xs) = ev (Intrinsics a f ps)))"

definition respects_identities :: "evaluator \<Rightarrow> bool" where
  "respects_identities ev =
     (\<forall>a l r. isConstant l \<and> isConstant r
          \<and> scalar_type (dtype l) = scalar_type (dtype r) \<longrightarrow>
        (scalar_type (dtype l) = IntT \<and> ev l = 0 \<longrightarrow> ev (BinaryOp a AddOp l r) = ev r)
        \<and> (scalar_type (dtype r) = IntT \<and> ev r = 0 \<longrightarrow> ev (BinaryOp a AddOp l r) = ev l)
        \<and> (scalar_type (dtype r) = IntT \<and> ev r = 0 \<longrightarrow> ev (BinaryOp a SubOp l r) = ev l)
        \<and> (scalar_type (dtype l) = IntT \<and> ev l = 1 \<longrightarrow> ev (BinaryOp a MulOp l r) = ev r)
        \<and> (scalar_type (dtype r) = IntT \<and> ev r = 1 \<longrightarrow> ev (BinaryOp a MulOp l r) = ev l)
        \<and> (scalar_type (dtype l) = FloatT \<and> ev l = 0x3F800000
              \<longrightarrow> ev (BinaryOp a MulOp l r) = ev r)
        \<and> (scalar_type (dtype r) = FloatT \<and> ev r = 0x3F800000
              \<longrightarrow> ev (BinaryOp a MulOp l r) = ev l)
        \<and> (scalar_type (dtype r) = IntT \<and> ev r = 1 \<longrightarrow> ev (BinaryOp a DivOp l r) = ev l))"

text \<open>
  An evaluator for the examples: integer arithmetic on the payloads. Of the float
  products it only knows those by 1.0.
\<close>

fun payload_op :: "BinaryOpKind \<Rightarrow> ScalarType \<Rightarrow> int \<Rightarrow> int \<Rightarrow> int" where
  "payload_op AddOp t x y = x + y"
| "payload_op SubOp t x y = x - y"
| "payload_op MulOp t x y =
     (if t = FloatT
      then (if x = 0x3F800000 then y else if y = 0x3F800000 then x else 0)
      else x * y)"
| "payload_op DivOp t x y = x div y"
| "payload_op ModOp t x y = x mod y"
| "payload_op (MaxOp p) t x y = max x y"
| "payload_op (MinOp p) t x y = min x y"
| "payload_op AndOp t x y = and x y"
| "payload_op XorOp t x y = xor x y"
| "payload_op LshiftOp t x y = push_bit (nat y) x"
| "payload_op RshiftOp t x y = drop_bit (nat y) x"

fun int_eval :: evaluator where
  "int_eval (Imm a t v) = v"
| "int_eval (BinaryOp a k l r) = payload_op k (scalar_type (dtype l)) (int_eval l) (int_eval r)"
| "int_eval (Cast a dt src) = int_eval src"
| "int_eval (Intrinsics a f ps) = sum_list (map int_eval ps)"
| "int_eval e = 0"

section \<open>Well-typed nodes\<close>

text \<open>
  Modelled from the spec: the typing that the dtype invariant of section 3 speaks of. The
  two operands of a binary node have the same dtype; the value of a broadcast and the
  base of a ramp are scalars; a cast keeps the lane count of its source.
\<close>

fun well_typed :: "Expr \<Rightarrow> bool" where
  "well_typed (Imm a t v) = True"
| "well_typed (VarE x) = True"
| "well_typed (Broadcast a v n) = (well_typed v \<and> lanes (dtype v) = 1)"
| "well_typed (Ramp a b st n) = (well_typed b \<and> well_typed st \<and> lanes (dtype b) = 1)"
| "well_typed (BinaryOp a k l r) = (well_typed l \<and> well_typed r \<and> dtype l = dtype r)"
| "well_typed (Cast a dt src) = (well_typed src \<and> lanes dt = lanes (dtype src))"
| "well_typed (Intrinsics a f ps) = list_all well_typed ps"
| "well_typed (Load a dt h i m) = (well_typed i \<and> well_typed m)"

text \<open>
  A result keeps the type of a node when it is well-typed and has the node's dtype.
\<close>

definition keeps_type :: "Expr \<Rightarrow> Expr \<Rightarrow> bool" where
  "keeps_type e x = (well_typed x \<and> dtype x = dtype e)"

section \<open>Verified properties\<close>

subsection \<open>A concrete run for the examples\<close>

text \<open>
  The examples start from a state whose next free address is 100 and whose history is
  empty, and use an evaluator that returns 7 for every node.
\<close>

definition s0 :: State where
  "s0 = \<lparr>next_addr = 100, evaluated = []\<rparr>"

definition ev0 :: evaluator where
  "ev0 e = 7"

subsection \<open>A run extends the heap\<close>

lemma self_in_nodes: "e \<in> set (nodes e)"
  by (cases e) auto

lemma in_heap_self: "in_heap H e \<Longrightarrow> H (addr e) = Some e"
  by (simp add: in_heap_def self_in_nodes)

lemma in_heap_mono: "in_heap H e \<Longrightarrow> H \<subseteq>\<^sub>m H' \<Longrightarrow> in_heap H' e"
  unfolding in_heap_def map_le_def by (fastforce simp: dom_def)

lemma well_formed_heap:
  assumes "well_formed e s"
  shows "\<exists>H. in_heap H e \<and> heap_ok H s"
proof -
  define H where "H = map_of (map (\<lambda>x. (addr x, x)) (nodes e))"
  have wf1: "addr x < next_addr s" if "x \<in> set (nodes e)" for x
    using assms that unfolding well_formed_def list_all_iff by blast
  have wf2: "x = y" if "x \<in> set (nodes e)" "y \<in> set (nodes e)" "addr x = addr y" for x y
    using assms that unfolding well_formed_def list_all_iff by blast
  have mem: "y \<in> set (nodes e) \<and> addr y = a" if "H a = Some y" for a y
  proof -
    from that have "(a, y) \<in> set (map (\<lambda>x. (addr x, x)) (nodes e))"
      unfolding H_def by (rule map_of_SomeD)
    then show ?thesis by auto
  qed
  have "H (addr x) = Some x" if "x \<in> set (nodes e)" for x
  proof -
    from that have "(addr x, x) \<in> set (map (\<lambda>x. (addr x, x)) (nodes e))" by simp
    then obtain y where y: "H (addr x) = Some y"
      unfolding H_def using weak_map_of_SomeI by fastforce
    from mem [OF y] that have "y = x" using wf2 by simp
    with y show ?thesis by simp
  qed
  moreover have "a < next_addr s" if "a \<in> dom H" for a
  proof -
    from that obtain y where "H a = Some y" by auto
    from mem [OF this] show ?thesis using wf1 by auto
  qed
  ultimately show ?thesis unfolding in_heap_def heap_ok_def by blast
qed

lemma in_heap_simps:
  "in_heap H (Broadcast a v n) \<longleftrightarrow> H a = Some (Broadcast a v n) \<and> in_heap H v"
  "in_heap H (Ramp a b st n) \<longleftrightarrow> H a = Some (Ramp a b st n) \<and> in_heap H b \<and> in_heap H st"
  "in_heap H (BinaryOp a k l r) \<longleftrightarrow> H a = Some (BinaryOp a k l r) \<and> in_heap H l \<and> in_heap H r"
  "in_heap H (Cast a dt src) \<longleftrightarrow> H a = Some (Cast a dt src) \<and> in_heap H src"
  "in_heap H (Intrinsics a f ps) \<longleftrightarrow> H a = Some (Intrinsics a f ps) \<and> (\<forall>p \<in> set ps. in_heap H p)"
  "in_heap H (Load a dt h i m) \<longleftrightarrow> H a = Some (Load a dt h i m) \<and> in_heap H i \<and> in_heap H m"
  "in_heap H (Imm a t w) \<longleftrightarrow> H a = Some (Imm a t w)"
  "in_heap H (VarE x) \<longleftrightarrow> H (var_addr x) = Some (VarE x)"
  unfolding in_heap_def by auto

text \<open>Allocating a node whose operands are in the heap.\<close>

lemma heap_alloc:
  assumes "heap_ok H s" and "addr x = next_addr s"
    and "\<forall>y \<in> set (nodes x). y \<noteq> x \<longrightarrow> H (addr y) = Some y"
  shows "H \<subseteq>\<^sub>m H(next_addr s \<mapsto> x) \<and> heap_ok (H(next_addr s \<mapsto> x)) (alloc s)
         \<and> in_heap (H(next_addr s \<mapsto> x)) x"
proof -
  have fresh: "next_addr s \<notin> dom H" using assms(1) unfolding heap_ok_def by auto
  then have "H \<subseteq>\<^sub>m H(next_addr s \<mapsto> x)" by (auto simp: map_le_def)
  moreover have "heap_ok (H(next_addr s \<mapsto> x)) (alloc s)"
    unfolding heap_ok_def
  proof
    fix a assume "a \<in> dom (H(next_addr s \<mapsto> x))"
    then have "a = next_addr s \<or> a \<in> dom H" by auto
    then have "a \<le> next_addr s" using assms(1) unfolding heap_ok_def Ball_def
      by (elim disjE) (simp, simp add: less_imp_le)
    then show "a < next_addr (alloc s)" by (simp add: alloc_def)
  qed
  moreover have "in_heap (H(next_addr s \<mapsto> x)) x"
    unfolding in_heap_def
  proof
    fix y assume "y \<in> set (nodes x)"
    show "(H(next_addr s \<mapsto> x)) (addr y) = Some y"
    proof (cases "y = x")
      case True then show ?thesis using assms(2) by simp
    next
      case False
      with assms(3) \<open>y \<in> set (nodes x)\<close> have "H (addr y) = Some y" by simp
      with fresh show ?thesis by auto
    qed
  qed
  ultimately show ?thesis by simp
qed

lemma growsI:
  "H \<subseteq>\<^sub>m H' \<Longrightarrow> heap_ok H' s \<Longrightarrow> (\<And>x. x \<in> set xs \<Longrightarrow> in_heap H' x) \<Longrightarrow> grows H s xs"
  unfolding grows_def by blast

lemma grows_refl: "heap_ok H s \<Longrightarrow> (\<And>x. x \<in> set xs \<Longrightarrow> in_heap H x) \<Longrightarrow> grows H s xs"
  by (rule growsI [of H H]) auto

lemma grows_trans:
  assumes "H \<subseteq>\<^sub>m H1" and "grows H1 s xs"
  shows "grows H s xs"
  using assms unfolding grows_def by (meson map_le_trans)

lemma grows_alloc:
  assumes "heap_ok H s" and "addr x = next_addr s"
    and "\<forall>y \<in> set (nodes x). y \<noteq> x \<longrightarrow> H (addr y) = Some y"
    and "\<And>y. y \<in> set ys \<Longrightarrow> in_heap H y"
  shows "grows H (alloc s) (x # ys)"
proof -
  let ?H = "H(next_addr s \<mapsto> x)"
  from heap_alloc [OF assms(1-3)]
  have 1: "H \<subseteq>\<^sub>m ?H" and 2: "heap_ok ?H (alloc s)" and 3: "in_heap ?H x" by simp_all
  show ?thesis
  proof (rule growsI [OF 1 2])
    fix y assume "y \<in> set (x # ys)"
    then show "in_heap ?H y" using 3 assms(4) in_heap_mono [OF _ 1] by auto
  qed
qed

lemma heap_ok_evaluated [simp]:
  "heap_ok H (s\<lparr>evaluated := h\<rparr>) = heap_ok H s"
  by (simp add: heap_ok_def)

lemma evaluateOp_grows:
  assumes "heap_ok H s" and "evaluateOp ev v s = (Inr e', s')"
  shows "grows H s' [e']"
proof -
  let ?t = "s\<lparr>evaluated := evaluated s @ [v]\<rparr>"
  from evaluateOp_Inr [OF assms(2)]
  have e': "e' = Imm (next_addr s) (scalar_type (dtype v)) (ev v)" and s': "s' = alloc ?t"
    by simp_all
  have "grows H (alloc ?t) (e' # [])"
    by (rule grows_alloc) (use assms(1) e' in auto)
  then show ?thesis using s' by simp
qed

lemma growsE:
  assumes "grows H s xs"
  obtains H' where "H \<subseteq>\<^sub>m H'" "heap_ok H' s" "\<And>x. x \<in> set xs \<Longrightarrow> in_heap H' x"
  using assms unfolding grows_def by blast

lemma operands_grows:
  assumes "\<And>t H x t'. in_heap H l \<Longrightarrow> heap_ok H t \<Longrightarrow> m l t = (Inr x, t') \<Longrightarrow> grows H t' [x]"
    and "\<And>t H x t'. in_heap H r \<Longrightarrow> heap_ok H t \<Longrightarrow> m r t = (Inr x, t') \<Longrightarrow> grows H t' [x]"
    and "in_heap H l" and "in_heap H r" and "heap_ok H s"
    and "mutateOperands m l r s = (Inr (lhs, rhs), s2)"
  shows "grows H s2 [lhs, rhs]"
proof -
  from assms(6) obtain s1 where 1: "m l s = (Inr lhs, s1)" and 2: "m r s1 = (Inr rhs, s2)"
    by (auto simp: mutateOperands_Inr)
  from assms(1) [OF assms(3,5) 1] obtain H1 where
    H1: "H \<subseteq>\<^sub>m H1" "heap_ok H1 s1" "in_heap H1 lhs"
    by (auto elim: growsE)
  have "in_heap H1 r" using assms(4) H1(1) by (rule in_heap_mono)
  from assms(2) [OF this H1(2) 2] obtain H2 where
    H2: "H1 \<subseteq>\<^sub>m H2" "heap_ok H2 s2" "in_heap H2 rhs"
    by (auto elim: growsE)
  have "in_heap H2 lhs" using H1(3) H2(1) by (rule in_heap_mono)
  moreover have "H \<subseteq>\<^sub>m H2" using H1(1) H2(1) by (rule map_le_trans)
  ultimately show ?thesis using H2 unfolding grows_def by auto
qed

lemma params_grows:
  assumes "\<And>p t H x t'. p \<in> set ps \<Longrightarrow> in_heap H p \<Longrightarrow> heap_ok H t \<Longrightarrow> m p t = (Inr x, t')
             \<Longrightarrow> grows H t' [x]"
    and "\<And>p. p \<in> set ps \<Longrightarrow> in_heap H p" and "heap_ok H s"
    and "mutateParams m ps s = (Inr ps', s')"
  shows "grows H s' ps'"
  using assms
proof (induction ps arbitrary: H s ps')
  case Nil
  then show ?case by (auto intro: grows_refl)
next
  case (Cons p ps)
  from Cons.prems(4) obtain x s1 xs where
    1: "m p s = (Inr x, s1)" and 2: "mutateParams m ps s1 = (Inr xs, s')" and 3: "ps' = x # xs"
    by (auto split: prod.splits sum.splits)
  have "grows H s1 [x]" using Cons.prems(1) [of p H s x s1] Cons.prems(2,3) 1 by simp
  then obtain H1 where H1: "H \<subseteq>\<^sub>m H1" "heap_ok H1 s1" "in_heap H1 x"
    by (auto elim: growsE)
  have "grows H1 s' xs"
  proof (rule Cons.IH [OF _ _ H1(2) 2])
    show "grows Ha t' [xa]" if "pa \<in> set ps" "in_heap Ha pa" "heap_ok Ha t" "m pa t = (Inr xa, t')"
      for pa t Ha xa t' using Cons.prems(1) [of pa Ha t xa t'] that by simp
    show "in_heap H1 pa" if "pa \<in> set ps" for pa
      using Cons.prems(2) [of pa] that H1(1) by (auto intro: in_heap_mono)
  qed
  then obtain H2 where H2: "H1 \<subseteq>\<^sub>m H2" "heap_ok H2 s'" "\<And>y. y \<in> set xs \<Longrightarrow> in_heap H2 y"
    by (auto elim: growsE)
  have "in_heap H2 x" using H1(3) H2(1) by (rule in_heap_mono)
  moreover have "H \<subseteq>\<^sub>m H2" using H1(1) H2(1) by (rule map_le_trans)
  ultimately show ?case using H2 3 unfolding grows_def by auto
qed

lemma rebuildAndEvaluate_grows:
  assumes "in_heap H (BinaryOp a k l r)" and "in_heap H lhs" and "in_heap H rhs"
    and "heap_ok H s" and "rebuildAndEvaluate ev a k l r lhs rhs opt s = (Inr e', s')"
  shows "grows H s' [e']"
proof -
  obtain k' where k': "newBinaryOpOfType (expr_type k) lhs rhs opt s
          = (Inr (BinaryOp (next_addr s) k' lhs rhs), alloc s)"
    using newBinaryOpOfType_expr_type by blast
  define node where "node = (if addr lhs \<noteq> addr l \<or> addr rhs \<noteq> addr r
     then BinaryOp (next_addr s) k' lhs rhs else BinaryOp a k l r)"
  define s1 where "s1 = (if addr lhs \<noteq> addr l \<or> addr rhs \<noteq> addr r then alloc s else s)"
  have res: "(if \<not> isConstant lhs \<or> \<not> isConstant rhs then (Inr node, s1)
              else evaluateOp ev node s1) = (Inr e', s')"
    using assms(5) unfolding rebuildAndEvaluate_def k' node_def s1_def
    by (auto split: if_splits)
  have g: "grows H s1 [node]"
  proof (cases "addr lhs \<noteq> addr l \<or> addr rhs \<noteq> addr r")
    case True
    have "grows H (alloc s) (BinaryOp (next_addr s) k' lhs rhs # [])"
      by (rule grows_alloc)
         (use assms(2,3,4) in \<open>auto simp: in_heap_def\<close>)
    with True show ?thesis by (simp add: node_def s1_def)
  next
    case False
    with assms(1,4) show ?thesis by (auto simp: node_def s1_def intro: grows_refl)
  qed
  show ?thesis
  proof (cases "\<not> isConstant lhs \<or> \<not> isConstant rhs")
    case True
    with res g show ?thesis by simp
  next
    case False
    with res have ev: "evaluateOp ev node s1 = (Inr e', s')" by simp
    from g obtain H1 where H1: "H \<subseteq>\<^sub>m H1" "heap_ok H1 s1" by (auto elim: growsE)
    from evaluateOp_grows [OF H1(2) ev] H1(1) show ?thesis by (auto intro: grows_trans)
  qed
qed

lemma finish_grows:
  assumes "heap_ok H s" and "in_heap H v"
    and "\<forall>y \<in> set (nodes n). y \<noteq> n \<longrightarrow> H (addr y) = Some y" and "addr n = next_addr s"
    and "(Inr e', s') = (Inr v, s) \<or> (Inr e', s') = (Inr n, alloc s)
         \<or> (Inr e', s') = evaluateOp ev v s \<or> (Inr e', s') = evaluateOp ev n (alloc s)"
  shows "grows H s' [e']"
proof -
  have n: "grows H (alloc s) (n # [])"
    using assms(1,4,3) by (rule grows_alloc) simp
  from assms(5) consider "e' = v" "s' = s" | "e' = n" "s' = alloc s"
    | "evaluateOp ev v s = (Inr e', s')" | "evaluateOp ev n (alloc s) = (Inr e', s')"
    by (elim disjE) (simp_all add: eq_commute)
  then show ?thesis
  proof cases
    case 1
    with assms(1,2) show ?thesis by (auto intro: grows_refl)
  next
    case 2
    with n show ?thesis by simp
  next
    case 3
    with assms(1) show ?thesis by (rule evaluateOp_grows)
  next
    case 4
    from n obtain H1 where H1: "H \<subseteq>\<^sub>m H1" "heap_ok H1 (alloc s)" by (auto elim: growsE)
    from evaluateOp_grows [OF H1(2) 4] H1(1) show ?thesis by (auto intro: grows_trans)
  qed
qed

lemma makeRamp_grows:
  assumes "heap_ok H s" and "in_heap H b" and "in_heap H r" and "isBroadcast b" and "isRamp r"
  shows "grows H (snd (makeRamp b r s)) [fst (makeRamp b r s)]"
proof -
  from assms(4) obtain ab v n where b: "b = Broadcast ab v n" by (cases b) auto
  from assms(5) obtain ar base st ln where r: "r = Ramp ar base st ln" by (cases r) auto
  let ?sum = "BinaryOp (next_addr s) AddOp v base"
  let ?ramp = "Ramp (Suc (next_addr s)) ?sum st ln"
  have "grows H (alloc s) (?sum # [v, base, st])"
    by (rule grows_alloc) (use assms(1,2,3) b r in \<open>auto simp: in_heap_def\<close>)
  then obtain H1 where H1: "H \<subseteq>\<^sub>m H1" "heap_ok H1 (alloc s)" "in_heap H1 ?sum" "in_heap H1 st"
    by (auto elim!: growsE)
  have "grows H1 (alloc (alloc s)) (?ramp # [])"
    by (rule grows_alloc) (use H1 in \<open>auto simp: in_heap_def alloc_def\<close>)
  with H1(1) have "grows H (alloc (alloc s)) [?ramp]" by (auto intro: grows_trans)
  then show ?thesis by (simp add: makeRamp_def b r)
qed


lemma mutate_Add_Inr:
  assumes "mutate ev (BinaryOp a AddOp l r) s = (Inr e', s')"
  obtains lhs rhs s2 where "mutateOperands (mutate ev) l r s = (Inr (lhs, rhs), s2)"
    and "(Inr e', s') =
      (if isIntImm lhs 0 then (Inr rhs, s2)
          else if isIntImm rhs 0 then (Inr lhs, s2)
          else if isBroadcastOfIntImm lhs 0 then (Inr rhs, s2)
          else if isBroadcast lhs \<and> isRamp rhs
            then mutate ev (fst (makeRamp lhs rhs s2)) (snd (makeRamp lhs rhs s2))
          else if isBroadcastOfIntImm rhs 0 then (Inr lhs, s2)
          else if isBroadcast rhs \<and> isRamp lhs
            then mutate ev (fst (makeRamp rhs lhs s2)) (snd (makeRamp rhs lhs s2))
          else rebuildAndEvaluate ev a AddOp l r lhs rhs False s2)"
proof (cases "mutateOperands (mutate ev) l r s")
  case (Pair res s2)
  show ?thesis
  proof (cases res)
    case (Inl x)
    with Pair assms show ?thesis by simp
  next
    case (Inr p)
    obtain lhs rhs where "p = (lhs, rhs)" by (cases p)
    with Inr Pair assms that [of lhs rhs s2] show ?thesis by simp
  qed
qed

lemma mutate_Add_cases:
  assumes "mutate ev (BinaryOp a AddOp l r) s = (Inr e', s')"
  obtains
    (L) lhs rhs s2 where "mutateOperands (mutate ev) l r s = (Inr (lhs, rhs), s2)"
      "e' = lhs" "s' = s2"
  | (R) lhs rhs s2 where "mutateOperands (mutate ev) l r s = (Inr (lhs, rhs), s2)"
      "e' = rhs" "s' = s2"
  | (LR) lhs rhs s2 where "mutateOperands (mutate ev) l r s = (Inr (lhs, rhs), s2)"
      "\<not> isIntImm lhs 0" "\<not> isIntImm rhs 0" "\<not> isBroadcastOfIntImm lhs 0"
      "isBroadcast lhs \<and> isRamp rhs"
      "mutate ev (fst (makeRamp lhs rhs s2)) (snd (makeRamp lhs rhs s2)) = (Inr e', s')"
  | (RL) lhs rhs s2 where "mutateOperands (mutate ev) l r s = (Inr (lhs, rhs), s2)"
      "\<not> isIntImm lhs 0" "\<not> isIntImm rhs 0" "\<not> isBroadcastOfIntImm lhs 0"
      "\<not> (isBroadcast lhs \<and> isRamp rhs)" "\<not> isBroadcastOfIntImm rhs 0"
      "isBroadcast rhs \<and> isRamp lhs"
      "mutate ev (fst (makeRamp rhs lhs s2)) (snd (makeRamp rhs lhs s2)) = (Inr e', s')"
  | (T) lhs rhs s2 where "mutateOperands (mutate ev) l r s = (Inr (lhs, rhs), s2)"
      "\<not> isIntImm lhs 0" "\<not> isIntImm rhs 0" "\<not> isBroadcastOfIntImm lhs 0"
      "\<not> (isBroadcast lhs \<and> isRamp rhs)" "\<not> isBroadcastOfIntImm rhs 0"
      "\<not> (isBroadcast rhs \<and> isRamp lhs)"
      "rebuildAndEvaluate ev a AddOp l r lhs rhs False s2 = (Inr e', s')"
proof -
  from assms obtain lhs rhs s2 where
    ops: "mutateOperands (mutate ev) l r s = (Inr (lhs, rhs), s2)"
    and eq: "(Inr e', s') =
      (if isIntImm lhs 0 then (Inr rhs, s2)
          else if isIntImm rhs 0 then (Inr lhs, s2)
          else if isBroadcastOfIntImm lhs 0 then (Inr rhs, s2)
          else if isBroadcast lhs \<and> isRamp rhs
            then mutate ev (fst (makeRamp lhs rhs s2)) (snd (makeRamp lhs rhs s2))
          else if isBroadcastOfIntImm rhs 0 then (Inr lhs, s2)
          else if isBroadcast rhs \<and> isRamp lhs
            then mutate ev (fst (makeRamp rhs lhs s2)) (snd (makeRamp rhs lhs s2))
          else rebuildAndEvaluate ev a AddOp l r lhs rhs False s2)"
    by (rule mutate_Add_Inr)
  show ?thesis
  proof (cases "isIntImm lhs 0")
    case True
    with eq ops R show ?thesis by simp
  next
    case c1: False
    show ?thesis
    proof (cases "isIntImm rhs 0")
      case True
      with eq ops c1 L show ?thesis by simp
    next
      case c2: False
      show ?thesis
      proof (cases "isBroadcastOfIntImm lhs 0")
        case True
        with eq ops c1 c2 R show ?thesis by simp
      next
        case c3: False
        show ?thesis
        proof (cases "isBroadcast lhs \<and> isRamp rhs")
          case True
          with eq c1 c2 c3 have
            "mutate ev (fst (makeRamp lhs rhs s2)) (snd (makeRamp lhs rhs s2)) = (Inr e', s')"
            by simp
          with ops c1 c2 c3 True show ?thesis by (rule LR)
        next
          case c4: False
          show ?thesis
          proof (cases "isBroadcastOfIntImm rhs 0")
            case True
            with eq ops c1 c2 c3 c4 L show ?thesis by simp
          next
            case c5: False
            show ?thesis
            proof (cases "isBroadcast rhs \<and> isRamp lhs")
              case True
              with eq c1 c2 c3 c4 c5 have
                "mutate ev (fst (makeRamp rhs lhs s2)) (snd (makeRamp rhs lhs s2)) = (Inr e', s')"
                by simp
              with ops c1 c2 c3 c4 c5 True show ?thesis by (rule RL)
            next
              case c6: False
              with eq c1 c2 c3 c4 c5 have
                "rebuildAndEvaluate ev a AddOp l r lhs rhs False s2 = (Inr e', s')"
                by simp
              with ops c1 c2 c3 c4 c5 c6 show ?thesis by (rule T)
            qed
          qed
        qed
      qed
    qed
  qed
qed

lemma mutateBinaryOp_grows:
  assumes "\<And>t H x t'. in_heap H l \<Longrightarrow> heap_ok H t \<Longrightarrow> m l t = (Inr x, t') \<Longrightarrow> grows H t' [x]"
    and "\<And>t H x t'. in_heap H r \<Longrightarrow> heap_ok H t \<Longrightarrow> m r t = (Inr x, t') \<Longrightarrow> grows H t' [x]"
    and "in_heap H (BinaryOp a k l r)" and "heap_ok H s"
    and "mutateBinaryOp ev m a k l r opt s = (Inr e', s')"
  shows "grows H s' [e']"
proof -
  from assms(5) obtain lhs rhs s2 where
    ops: "mutateOperands m l r s = (Inr (lhs, rhs), s2)"
    and re: "rebuildAndEvaluate ev a k l r lhs rhs opt s2 = (Inr e', s')"
    by (auto simp: mutateBinaryOp_def split: prod.splits sum.splits)
  have "in_heap H l" "in_heap H r" using assms(3) by (simp_all add: in_heap_simps)
  with assms(1,2) have "grows H s2 [lhs, rhs]"
    using assms(4) ops by (rule operands_grows)
  then obtain H2 where H2: "H \<subseteq>\<^sub>m H2" "heap_ok H2 s2" "in_heap H2 lhs" "in_heap H2 rhs"
    by (auto elim!: growsE)
  have v: "in_heap H2 (BinaryOp a k l r)" using assms(3) H2(1) by (rule in_heap_mono)
  from rebuildAndEvaluate_grows [OF v H2(3,4,2) re] H2(1) show ?thesis
    by (auto intro: grows_trans)
qed

lemma mutate_grows:
  "in_heap H e \<Longrightarrow> heap_ok H s \<Longrightarrow> mutate ev e s = (Inr e', s') \<Longrightarrow> grows H s' [e']"
proof (induction ev e s arbitrary: H e' s' rule: mutate.induct)
  case (1 ev a t v s)
  then show ?case by (auto intro: grows_refl)
next
  case (2 ev x s)
  then show ?case by (auto intro: grows_refl)
next
  case (3 ev a v n s)
  from "3.prems"(3) obtain x s1 where m: "mutate ev v s = (Inr x, s1)"
    by (auto split: prod.splits sum.splits)
  have "in_heap H v" using "3.prems"(1) by (simp add: in_heap_simps)
  from "3.IH" [OF this "3.prems"(2) m] obtain H1 where
    H1: "H \<subseteq>\<^sub>m H1" "heap_ok H1 s1" "in_heap H1 x"
    by (auto elim!: growsE)
  have v: "in_heap H1 (Broadcast a v n)" using "3.prems"(1) H1(1) by (rule in_heap_mono)
  have "grows H1 s' [e']"
    by (rule finish_grows [OF H1(2) v, of "Broadcast (next_addr s1) x n"])
       (use "3.prems"(3) m H1(3) in \<open>auto simp: in_heap_def split: if_splits\<close>)
  with H1(1) show ?case by (rule grows_trans)
next
  case (4 ev a b st n s)
  from "4.prems"(3) obtain lhs rhs s2 where
    ops: "mutateOperands (mutate ev) b st s = (Inr (lhs, rhs), s2)"
    by (auto split: prod.splits sum.splits)
  have "in_heap H b" "in_heap H st" using "4.prems"(1) by (simp_all add: in_heap_simps)
  with "4.IH" have "grows H s2 [lhs, rhs]"
    using "4.prems"(2) ops by (rule operands_grows)
  then obtain H2 where H2: "H \<subseteq>\<^sub>m H2" "heap_ok H2 s2" "in_heap H2 lhs" "in_heap H2 rhs"
    by (auto elim!: growsE)
  have v: "in_heap H2 (Ramp a b st n)" using "4.prems"(1) H2(1) by (rule in_heap_mono)
  have "grows H2 s' [e']"
    by (rule finish_grows [OF H2(2) v, of "Ramp (next_addr s2) lhs rhs n"])
       (use "4.prems"(3) ops H2(3,4) in \<open>auto simp: in_heap_def split: if_splits\<close>)
  with H2(1) show ?case by (rule grows_trans)
next
  case (5 ev a l r s)
  have hl: "in_heap H l" and hr: "in_heap H r"
    using "5.prems"(1) by (simp_all add: in_heap_simps)
  have step: "grows H s' [e']"
    if ops: "mutateOperands (mutate ev) l r s = (Inr (lhs, rhs), s2)"
      and fin: "\<And>H2. H \<subseteq>\<^sub>m H2 \<Longrightarrow> heap_ok H2 s2 \<Longrightarrow> in_heap H2 lhs \<Longrightarrow> in_heap H2 rhs
                  \<Longrightarrow> grows H2 s' [e']"
    for lhs rhs s2
  proof -
    have "grows H s2 [lhs, rhs]"
      using "5.IH"(1,2) hl hr "5.prems"(2) ops by (rule operands_grows)
    then obtain H2 where H2: "H \<subseteq>\<^sub>m H2" "heap_ok H2 s2" "in_heap H2 lhs" "in_heap H2 rhs"
      by (auto elim!: growsE)
    from fin [OF H2] H2(1) show ?thesis by (auto intro: grows_trans)
  qed
  from "5.prems"(3) show ?case
  proof (cases rule: mutate_Add_cases)
    case (L lhs rhs s2)
    from L(1) show ?thesis by (rule step) (use L in \<open>auto intro: grows_refl\<close>)
  next
    case (R lhs rhs s2)
    from R(1) show ?thesis by (rule step) (use R in \<open>auto intro: grows_refl\<close>)
  next
    case (LR lhs rhs s2)
    from LR(1) show ?thesis
    proof (rule step)
      fix H2 assume H2: "H \<subseteq>\<^sub>m H2" "heap_ok H2 s2" "in_heap H2 lhs" "in_heap H2 rhs"
      from makeRamp_grows [OF H2(2,3,4)] LR(5) obtain H3 where
        H3: "H2 \<subseteq>\<^sub>m H3" "heap_ok H3 (snd (makeRamp lhs rhs s2))"
          "in_heap H3 (fst (makeRamp lhs rhs s2))"
        by (auto elim!: growsE)
      from "5.IH"(3) [OF LR(1) [symmetric] refl refl LR(2-5) H3(3,2) LR(6)] H3(1)
      show "grows H2 s' [e']" by (auto intro: grows_trans)
    qed
  next
    case (RL lhs rhs s2)
    from RL(1) show ?thesis
    proof (rule step)
      fix H2 assume H2: "H \<subseteq>\<^sub>m H2" "heap_ok H2 s2" "in_heap H2 lhs" "in_heap H2 rhs"
      from makeRamp_grows [OF H2(2,4,3)] RL(7) obtain H3 where
        H3: "H2 \<subseteq>\<^sub>m H3" "heap_ok H3 (snd (makeRamp rhs lhs s2))"
          "in_heap H3 (fst (makeRamp rhs lhs s2))"
        by (auto elim!: growsE)
      from "5.IH"(4) [OF RL(1) [symmetric] refl refl RL(2-7) H3(3,2) RL(8)] H3(1)
      show "grows H2 s' [e']" by (auto intro: grows_trans)
    qed
  next
    case (T lhs rhs s2)
    from T(1) show ?thesis
    proof (rule step)
      fix H2 assume H2: "H \<subseteq>\<^sub>m H2" "heap_ok H2 s2" "in_heap H2 lhs" "in_heap H2 rhs"
      have v: "in_heap H2 (BinaryOp a AddOp l r)"
        using "5.prems"(1) H2(1) by (rule in_heap_mono)
      from v H2(3,4,2) T(8) show "grows H2 s' [e']" by (rule rebuildAndEvaluate_grows)
    qed
  qed
next
  case (6 ev a l r s)
  from "6.prems"(3) obtain lhs rhs s2 where
    ops: "mutateOperands (mutate ev) l r s = (Inr (lhs, rhs), s2)"
    by (auto split: prod.splits sum.splits)
  have "grows H s2 [lhs, rhs]"
    using "6.IH"(1,2) "6.prems"(1) [unfolded in_heap_simps, THEN conjunct2, THEN conjunct1]
      "6.prems"(1) [unfolded in_heap_simps, THEN conjunct2, THEN conjunct2] "6.prems"(2) ops
    by (rule operands_grows)
  then obtain H2 where H2: "H \<subseteq>\<^sub>m H2" "heap_ok H2 s2" "in_heap H2 lhs" "in_heap H2 rhs"
    by (auto elim!: growsE)
  have v: "in_heap H2 (BinaryOp a SubOp l r)" using "6.prems"(1) H2(1) by (rule in_heap_mono)
  have "grows H2 s' [e']"
    using "6.prems"(3) ops H2 rebuildAndEvaluate_grows [OF v H2(3,4,2)]
    by (auto split: if_splits intro: grows_refl)
  with H2(1) show ?case by (rule grows_trans)
next
  case (7 ev a l r s)
  from "7.prems"(3) obtain lhs rhs s2 where
    ops: "mutateOperands (mutate ev) l r s = (Inr (lhs, rhs), s2)"
    by (auto split: prod.splits sum.splits)
  have "grows H s2 [lhs, rhs]"
    using "7.IH"(1,2) "7.prems"(1) [unfolded in_heap_simps, THEN conjunct2, THEN conjunct1]
      "7.prems"(1) [unfolded in_heap_simps, THEN conjunct2, THEN conjunct2] "7.prems"(2) ops
    by (rule operands_grows)
  then obtain H2 where H2: "H \<subseteq>\<^sub>m H2" "heap_ok H2 s2" "in_heap H2 lhs" "in_heap H2 rhs"
    by (auto elim!: growsE)
  have v: "in_heap H2 (BinaryOp a MulOp l r)" using "7.prems"(1) H2(1) by (rule in_heap_mono)
  have "grows H2 s' [e']"
    using "7.prems"(3) ops H2 rebuildAndEvaluate_grows [OF v H2(3,4,2)]
    by (auto split: if_splits intro: grows_refl)
  with H2(1) show ?case by (rule grows_trans)
next
  case (8 ev a l r s)
  from "8.prems"(3) obtain lhs rhs s2 where
    ops: "mutateOperands (mutate ev) l r s = (Inr (lhs, rhs), s2)"
    by (auto split: prod.splits sum.splits)
  have "grows H s2 [lhs, rhs]"
    using "8.IH"(1,2) "8.prems"(1) [unfolded in_heap_simps, THEN conjunct2, THEN conjunct1]
      "8.prems"(1) [unfolded in_heap_simps, THEN conjunct2, THEN conjunct2] "8.prems"(2) ops
    by (rule operands_grows)
  then obtain H2 where H2: "H \<subseteq>\<^sub>m H2" "heap_ok H2 s2" "in_heap H2 lhs" "in_heap H2 rhs"
    by (auto elim!: growsE)
  have v: "in_heap H2 (BinaryOp a DivOp l r)" using "8.prems"(1) H2(1) by (rule in_heap_mono)
  have "grows H2 s' [e']"
    using "8.prems"(3) ops H2 rebuildAndEvaluate_grows [OF v H2(3,4,2)]
    by (auto split: if_splits intro: grows_refl)
  with H2(1) show ?case by (rule grows_trans)
next
  case (9 ev a l r s)
  show ?case
    using "9.IH" "9.prems"(1,2) "9.prems"(3) [unfolded mutate.simps]
    by (rule mutateBinaryOp_grows)
next
  case (10 ev a l r s)
  show ?case
    using "10.IH" "10.prems"(1,2) "10.prems"(3) [unfolded mutate.simps]
    by (rule mutateBinaryOp_grows)
next
  case (11 ev a l r s)
  show ?case
    using "11.IH" "11.prems"(1,2) "11.prems"(3) [unfolded mutate.simps]
    by (rule mutateBinaryOp_grows)
next
  case (12 ev a l r s)
  show ?case
    using "12.IH" "12.prems"(1,2) "12.prems"(3) [unfolded mutate.simps]
    by (rule mutateBinaryOp_grows)
next
  case (13 ev a l r s)
  show ?case
    using "13.IH" "13.prems"(1,2) "13.prems"(3) [unfolded mutate.simps]
    by (rule mutateBinaryOp_grows)
next
  case (14 ev a p l r s)
  show ?case
    using "14.IH" "14.prems"(1,2) "14.prems"(3) [unfolded mutate.simps]
    by (rule mutateBinaryOp_grows)
next
  case (15 ev a p l r s)
  show ?case
    using "15.IH" "15.prems"(1,2) "15.prems"(3) [unfolded mutate.simps]
    by (rule mutateBinaryOp_grows)
next
  case (16 ev a dt src s)
  then show ?case
    by (auto split: if_splits intro: grows_refl evaluateOp_grows)
next
  case (17 ev a f ps s)
  from "17.prems"(3) obtain xs s1 where
    ps: "mutateParams (mutate ev) ps s = (Inr xs, s1)"
    by (auto split: prod.splits sum.splits)
  have "grows H s1 xs"
  proof (rule params_grows [OF _ _ "17.prems"(2) ps])
    show "grows Ha t' [x]"
      if "p \<in> set ps" "in_heap Ha p" "heap_ok Ha t" "mutate ev p t = (Inr x, t')" for p t Ha x t'
      using that by (rule "17.IH")
    show "in_heap H p" if "p \<in> set ps" for p
      using "17.prems"(1) that by (simp add: in_heap_simps)
  qed
  then obtain H1 where H1: "H \<subseteq>\<^sub>m H1" "heap_ok H1 s1" "\<And>x. x \<in> set xs \<Longrightarrow> in_heap H1 x"
    by (auto elim!: growsE)
  have v: "in_heap H1 (Intrinsics a f ps)" using "17.prems"(1) H1(1) by (rule in_heap_mono)
  have "grows H1 s' [e']"
    by (rule finish_grows [OF H1(2) v, where n = "Intrinsics (next_addr s1) f xs" and ev = ev])
       (use "17.prems"(3) ps H1(3) in \<open>auto simp: in_heap_def Let_def split: if_splits\<close>)
  with H1(1) show ?case by (rule grows_trans)
next
  case (18 ev a dt h i m s)
  from "18.prems"(3) obtain lhs rhs s2 where
    ops: "mutateOperands (mutate ev) i m s = (Inr (lhs, rhs), s2)"
    by (auto split: prod.splits sum.splits)
  have "in_heap H i" "in_heap H m" using "18.prems"(1) by (simp_all add: in_heap_simps)
  with "18.IH" have "grows H s2 [lhs, rhs]"
    using "18.prems"(2) ops by (rule operands_grows)
  then obtain H2 where H2: "H \<subseteq>\<^sub>m H2" "heap_ok H2 s2" "in_heap H2 lhs" "in_heap H2 rhs"
    by (auto elim!: growsE)
  have v: "in_heap H2 (Load a dt h i m)" using "18.prems"(1) H2(1) by (rule in_heap_mono)
  have "grows H2 s' [e']"
    by (rule finish_grows [OF H2(2) v, of "Load (next_addr s2) dt h lhs rhs"])
       (use "18.prems"(3) ops H2(3,4) in \<open>auto simp: in_heap_def split: if_splits\<close>)
  with H2(1) show ?case by (rule grows_trans)
qed

lemma mutate_same_addr:
  assumes "in_heap H e" and "heap_ok H s" and "mutate ev e s = (Inr e', s')"
    and "addr e' = addr e"
  shows "e' = e"
proof -
  from mutate_grows [OF assms(1-3)] obtain H' where
    H': "H \<subseteq>\<^sub>m H'" "in_heap H' e'"
    by (auto elim!: growsE)
  have "H' (addr e) = Some e"
    using in_heap_self [OF in_heap_mono [OF assms(1) H'(1)]] .
  moreover have "H' (addr e') = Some e'" using H'(2) by (rule in_heap_self)
  ultimately show ?thesis using assms(4) by simp
qed

lemma mutateOperands_cases:
  assumes "mutateOperands m l r s = (res, s2)"
  obtains
    (E1) e where "m l s = (Inl e, s2)" "res = Inl e"
  | (E2) lhs s1 e where "m l s = (Inr lhs, s1)" "m r s1 = (Inl e, s2)" "res = Inl e"
  | (OK) lhs rhs s1 where "m l s = (Inr lhs, s1)" "m r s1 = (Inr rhs, s2)" "res = Inr (lhs, rhs)"
proof (cases "m l s")
  case (Pair r1 s1)
  show ?thesis
  proof (cases r1)
    case (Inl e)
    with Pair assms E1 show ?thesis by (simp add: mutateOperands_def)
  next
    case (Inr lhs)
    show ?thesis
    proof (cases "m r s1")
      case p2: (Pair r2 s2')
      show ?thesis
      proof (cases r2)
        case (Inl e)
        with Pair Inr p2 assms E2 [of lhs s1 e] show ?thesis by (simp add: mutateOperands_def)
      next
        case r: (Inr rhs)
        with Pair Inr p2 assms OK [of lhs s1 rhs] show ?thesis
          by (simp add: mutateOperands_def)
      qed
    qed
  qed
qed

text \<open>The folded operands of a well-formed node: a heap for them, and pointer equality
  with an original operand means no change.\<close>

lemma operands_heap:
  assumes "in_heap H l" and "in_heap H r" and "heap_ok H s"
    and "mutateOperands (mutate ev) l r s = (Inr (lhs, rhs), s2)"
  obtains H2 where "H \<subseteq>\<^sub>m H2" "heap_ok H2 s2" "in_heap H2 lhs" "in_heap H2 rhs"
    "addr lhs = addr l \<longrightarrow> lhs = l" "addr rhs = addr r \<longrightarrow> rhs = r"
proof -
  from assms(4) obtain s1 where 1: "mutate ev l s = (Inr lhs, s1)"
    and 2: "mutate ev r s1 = (Inr rhs, s2)"
    by (auto simp: mutateOperands_Inr)
  from mutate_grows [OF assms(1,3) 1] obtain H1 where
    H1: "H \<subseteq>\<^sub>m H1" "heap_ok H1 s1" "in_heap H1 lhs"
    by (auto elim!: growsE)
  have r1: "in_heap H1 r" using assms(2) H1(1) by (rule in_heap_mono)
  from mutate_grows [OF r1 H1(2) 2] obtain H2 where
    H2: "H1 \<subseteq>\<^sub>m H2" "heap_ok H2 s2" "in_heap H2 rhs"
    by (auto elim!: growsE)
  show ?thesis
  proof (rule that [of H2])
    show "H \<subseteq>\<^sub>m H2" using H1(1) H2(1) by (rule map_le_trans)
    show "heap_ok H2 s2" by (rule H2(2))
    show "in_heap H2 lhs" using H1(3) H2(1) by (rule in_heap_mono)
    show "in_heap H2 rhs" by (rule H2(3))
    show "addr lhs = addr l \<longrightarrow> lhs = l"
      using mutate_same_addr [OF assms(1,3) 1] by blast
    show "addr rhs = addr r \<longrightarrow> rhs = r"
      using mutate_same_addr [OF r1 H1(2) 2] by blast
  qed
qed

lemma params_heap:
  assumes "\<And>p. p \<in> set ps \<Longrightarrow> in_heap H p" and "heap_ok H s"
    and "mutateParams (mutate ev) ps s = (Inr xs, s1)"
  obtains H1 where "H \<subseteq>\<^sub>m H1" "heap_ok H1 s1" "\<And>x. x \<in> set xs \<Longrightarrow> in_heap H1 x"
    "map addr ps = map addr xs \<longrightarrow> xs = ps"
proof -
  have "grows H s1 xs"
  proof (rule params_grows [OF _ assms])
    show "grows Ha t' [x]"
      if "in_heap Ha p" "heap_ok Ha t" "mutate ev p t = (Inr x, t')" for p t Ha x t'
      using that by (rule mutate_grows)
  qed
  then obtain H1 where H1: "H \<subseteq>\<^sub>m H1" "heap_ok H1 s1" "\<And>x. x \<in> set xs \<Longrightarrow> in_heap H1 x"
    by (auto elim!: growsE)
  have same: "xs = ps" if "map addr ps = map addr xs"
    using assms that
  proof (induction ps arbitrary: H s xs)
    case Nil
    then show ?case by simp
  next
    case (Cons p ps)
    from Cons.prems(3) obtain x s2 ys where
      1: "mutate ev p s = (Inr x, s2)" and 2: "mutateParams (mutate ev) ps s2 = (Inr ys, s1)"
      and 3: "xs = x # ys"
      by (auto split: prod.splits sum.splits)
    have p: "in_heap H p" using Cons.prems(1) by simp
    from Cons.prems(4) 3 have a: "addr x = addr p" "map addr ps = map addr ys" by simp_all
    from p Cons.prems(2) 1 a(1) have "x = p" by (rule mutate_same_addr)
    from mutate_grows [OF p Cons.prems(2) 1] obtain H2 where
      H2: "H \<subseteq>\<^sub>m H2" "heap_ok H2 s2"
      by (auto elim!: growsE)
    have "ys = ps"
    proof (rule Cons.IH [OF _ H2(2) 2 a(2)])
      show "in_heap H2 q" if "q \<in> set ps" for q
        using Cons.prems(1) [of q] that H2(1) by (auto intro: in_heap_mono)
    qed
    with \<open>x = p\<close> 3 show ?case by simp
  qed
  from same have "map addr ps = map addr xs \<longrightarrow> xs = ps" by blast
  with H1 show ?thesis by (rule that)
qed

subsection \<open>Case analysis and induction for the binary rules\<close>

lemma mutate_BinaryOp:
  "mutate ev (BinaryOp a k l r) s =
     (case mutateOperands (mutate ev) l r s of
        (Inl e, s2) \<Rightarrow> (Inl e, s2)
      | (Inr (lhs, rhs), s2) \<Rightarrow> afterOperands ev a k l r lhs rhs s2)"
proof (cases "mutateOperands (mutate ev) l r s")
  case (Pair res s2)
  show ?thesis
  proof (cases res)
    case (Inl e)
    with Pair show ?thesis by (cases k) (simp_all add: mutateBinaryOp_def)
  next
    case (Inr p)
    obtain lhs rhs where p: "p = (lhs, rhs)" by (cases p)
    show ?thesis
      unfolding afterOperands_def
      by (cases k) (simp_all add: Pair Inr p mutateBinaryOp_def)
  qed
qed

lemma mutate_BinaryOp_cases:
  assumes "mutate ev (BinaryOp a k l r) s = (res, s')"
  obtains
    (E) e where "mutateOperands (mutate ev) l r s = (Inl e, s')" "res = Inl e"
  | (Id) lhs rhs x where "mutateOperands (mutate ev) l r s = (Inr (lhs, rhs), s')"
      "identity k lhs rhs = Some x" "res = Inr x"
  | (Refold) lhs rhs s2 b rm where "mutateOperands (mutate ev) l r s = (Inr (lhs, rhs), s2)"
      "identity k lhs rhs = None" "refold k lhs rhs = Some (b, rm)"
      "mutate ev (fst (makeRamp b rm s2)) (snd (makeRamp b rm s2)) = (res, s')"
  | (Rebuild) lhs rhs s2 where "mutateOperands (mutate ev) l r s = (Inr (lhs, rhs), s2)"
      "identity k lhs rhs = None" "refold k lhs rhs = None"
      "rebuildAndEvaluate ev a k l r lhs rhs (option_of k) s2 = (res, s')"
proof (cases "mutateOperands (mutate ev) l r s")
  case (Pair res2 s2)
  show ?thesis
  proof (cases res2)
    case (Inl e)
    with Pair assms E [of e] show ?thesis by (simp add: mutate_BinaryOp del: mutate.simps)
  next
    case (Inr p)
    obtain lhs rhs where p: "p = (lhs, rhs)" by (cases p)
    from assms Pair Inr p have after: "afterOperands ev a k l r lhs rhs s2 = (res, s')"
      by (simp add: mutate_BinaryOp del: mutate.simps)
    show ?thesis
    proof (cases "identity k lhs rhs")
      case (Some x)
      with after Pair Inr p Id [of lhs rhs x] show ?thesis
        by (simp add: afterOperands_def)
    next
      case None
      show ?thesis
      proof (cases "refold k lhs rhs")
        case (Some q)
        obtain b rm where q: "q = (b, rm)" by (cases q)
        from after None Some q have
          "mutate ev (fst (makeRamp b rm s2)) (snd (makeRamp b rm s2)) = (res, s')"
          by (simp add: afterOperands_def)
        with Pair Inr p None Some q Refold [of lhs rhs s2 b rm] show ?thesis by simp
      next
        case n2: None
        from after None n2 have
          "rebuildAndEvaluate ev a k l r lhs rhs (option_of k) s2 = (res, s')"
          by (simp add: afterOperands_def)
        with Pair Inr p None n2 Rebuild [of lhs rhs s2] show ?thesis by simp
      qed
    qed
  qed
qed

lemma identity_Some: "identity k lhs rhs = Some x \<Longrightarrow> x = lhs \<or> x = rhs"
  by (cases k) (auto split: if_splits)

lemma refold_Some:
  "refold k lhs rhs = Some (b, rm) \<Longrightarrow>
     k = AddOp \<and> isBroadcast b \<and> isRamp rm \<and> (b = lhs \<and> rm = rhs \<or> b = rhs \<and> rm = lhs)"
  by (cases k) (auto split: if_splits)

lemma mutate_induct [case_names Imm Var Broadcast Ramp BinaryOp Cast Intrinsics Load]:
  assumes "\<And>ev a t v s. P ev (Imm a t v) s"
    and "\<And>ev x s. P ev (VarE x) s"
    and "\<And>ev a v n s. P ev v s \<Longrightarrow> P ev (Broadcast a v n) s"
    and "\<And>ev a b st n s. (\<And>t. P ev b t) \<Longrightarrow> (\<And>t. P ev st t) \<Longrightarrow> P ev (Ramp a b st n) s"
    and "\<And>ev a k l r s. (\<And>t. P ev l t) \<Longrightarrow> (\<And>t. P ev r t) \<Longrightarrow>
           (\<And>lhs rhs s2 b rm. mutateOperands (mutate ev) l r s = (Inr (lhs, rhs), s2) \<Longrightarrow>
              identity k lhs rhs = None \<Longrightarrow> refold k lhs rhs = Some (b, rm) \<Longrightarrow>
              P ev (fst (makeRamp b rm s2)) (snd (makeRamp b rm s2))) \<Longrightarrow>
           P ev (BinaryOp a k l r) s"
    and "\<And>ev a dt src s. P ev (Cast a dt src) s"
    and "\<And>ev a f ps s. (\<And>p t. p \<in> set ps \<Longrightarrow> P ev p t) \<Longrightarrow> P ev (Intrinsics a f ps) s"
    and "\<And>ev a dt h i m s. (\<And>t. P ev i t) \<Longrightarrow> (\<And>t. P ev m t) \<Longrightarrow> P ev (Load a dt h i m) s"
  shows "P ev e s"
proof (induction ev e s rule: mutate.induct)
  case (5 ev a l r s)
  show ?case
  proof (rule assms(5) [OF "5.IH"(1,2)])
    fix lhs rhs s2 b rm
    assume ops: "mutateOperands (mutate ev) l r s = (Inr (lhs, rhs), s2)"
      and i: "identity AddOp lhs rhs = None" and rf: "refold AddOp lhs rhs = Some (b, rm)"
    from i have c: "\<not> isIntImm lhs 0" "\<not> isIntImm rhs 0" "\<not> isBroadcastOfIntImm lhs 0"
      by (auto split: if_splits)
    show "P ev (fst (makeRamp b rm s2)) (snd (makeRamp b rm s2))"
    proof (cases "isBroadcast lhs \<and> isRamp rhs")
      case True
      with rf have "b = lhs" "rm = rhs" by simp_all
      with "5.IH"(3) [OF ops [symmetric] refl refl c True] show ?thesis by simp
    next
      case False
      with i have c5: "\<not> isBroadcastOfIntImm rhs 0" by (auto split: if_splits)
      from rf False have c6: "isBroadcast rhs \<and> isRamp lhs" and "b = rhs" "rm = lhs"
        by (auto split: if_splits)
      with "5.IH"(4) [OF ops [symmetric] refl refl c False c5 c6] show ?thesis by simp
    qed
  qed
qed (rule assms; simp; fail)+

lemma traced_refl [simp]: "traced s s"
  by (simp add: traced_def)

lemma traced_trans: "traced s t \<Longrightarrow> traced t u \<Longrightarrow> traced s u"
  unfolding traced_def by auto

lemma traced_alloc [simp]: "traced s (alloc t) = traced s t" "traced (alloc s) t = traced s t"
  by (simp_all add: traced_def alloc_def)

lemma evaluateOp_traced:
  "evaluation_allowed v \<Longrightarrow> evaluateOp ev v s = (res, s') \<Longrightarrow> traced s s'"
  by (auto simp: evaluateOp_def Let_def traced_def alloc_def split: if_splits)

lemma operands_traced:
  assumes "\<And>t H res t'. in_heap H l \<Longrightarrow> heap_ok H t \<Longrightarrow> mutate ev l t = (res, t') \<Longrightarrow> traced t t'"
    and "\<And>t H res t'. in_heap H r \<Longrightarrow> heap_ok H t \<Longrightarrow> mutate ev r t = (res, t') \<Longrightarrow> traced t t'"
    and "in_heap H l" and "in_heap H r" and "heap_ok H s"
    and "mutateOperands (mutate ev) l r s = (res, s2)"
  shows "traced s s2"
  using assms(6)
proof (cases rule: mutateOperands_cases)
  case (E1 e)
  from assms(1) [OF assms(3,5) E1(1)] show ?thesis .
next
  case (E2 lhs s1 e)
  from mutate_grows [OF assms(3,5) E2(1)] obtain H1 where
    H1: "H \<subseteq>\<^sub>m H1" "heap_ok H1 s1" by (auto elim!: growsE)
  have "traced s s1" using assms(1) [OF assms(3,5) E2(1)] .
  moreover have "traced s1 s2"
    using assms(2) [OF in_heap_mono [OF assms(4) H1(1)] H1(2) E2(2)] .
  ultimately show ?thesis by (rule traced_trans)
next
  case (OK lhs rhs s1)
  from mutate_grows [OF assms(3,5) OK(1)] obtain H1 where
    H1: "H \<subseteq>\<^sub>m H1" "heap_ok H1 s1" by (auto elim!: growsE)
  have "traced s s1" using assms(1) [OF assms(3,5) OK(1)] .
  moreover have "traced s1 s2"
    using assms(2) [OF in_heap_mono [OF assms(4) H1(1)] H1(2) OK(2)] .
  ultimately show ?thesis by (rule traced_trans)
qed

lemma params_traced:
  assumes "\<And>p t H res t'. p \<in> set ps \<Longrightarrow> in_heap H p \<Longrightarrow> heap_ok H t
             \<Longrightarrow> mutate ev p t = (res, t') \<Longrightarrow> traced t t'"
    and "\<And>p. p \<in> set ps \<Longrightarrow> in_heap H p" and "heap_ok H s"
    and "mutateParams (mutate ev) ps s = (res, s')"
  shows "traced s s'"
  using assms
proof (induction ps arbitrary: H s res s')
  case Nil
  then show ?case by simp
next
  case (Cons p ps)
  obtain r1 s1 where m: "mutate ev p s = (r1, s1)" by (cases "mutate ev p s")
  have p: "in_heap H p" using Cons.prems(2) by simp
  have t1: "traced s s1" using Cons.prems(1) [of p H s r1 s1] p Cons.prems(3) m by simp
  show ?case
  proof (cases r1)
    case (Inl e)
    with m Cons.prems(4) t1 show ?thesis by simp
  next
    case (Inr x)
    from mutate_grows [OF p Cons.prems(3) m [unfolded Inr]] obtain H1 where
      H1: "H \<subseteq>\<^sub>m H1" "heap_ok H1 s1" by (auto elim!: growsE)
    obtain r2 s2 where m2: "mutateParams (mutate ev) ps s1 = (r2, s2)"
      by (cases "mutateParams (mutate ev) ps s1")
    have "traced s1 s2"
    proof (rule Cons.IH [OF _ _ H1(2) m2])
      show "traced t t'"
        if "q \<in> set ps" "in_heap Ha q" "heap_ok Ha t" "mutate ev q t = (res, t')"
        for q t Ha res t'
        using Cons.prems(1) [of q Ha t res t'] that by simp
      show "in_heap H1 q" if "q \<in> set ps" for q
        using Cons.prems(2) [of q] that H1(1) by (auto intro: in_heap_mono)
    qed
    with t1 have "traced s s2" by (rule traced_trans)
    moreover from Cons.prems(4) m Inr m2 have "s' = s2" by (cases r2) auto
    ultimately show ?thesis by simp
  qed
qed

lemma rebuildAndEvaluate_traced:
  assumes "addr lhs = addr l \<Longrightarrow> lhs = l" and "addr rhs = addr r \<Longrightarrow> rhs = r"
    and "rebuildAndEvaluate ev a k l r lhs rhs opt s = (res, s')"
  shows "traced s s'"
proof -
  obtain k' where k': "newBinaryOpOfType (expr_type k) lhs rhs opt s
          = (Inr (BinaryOp (next_addr s) k' lhs rhs), alloc s)"
    using newBinaryOpOfType_expr_type by blast
  show ?thesis
  proof (cases "\<not> isConstant lhs \<or> \<not> isConstant rhs")
    case True
    with assms(3) show ?thesis
      unfolding rebuildAndEvaluate_def k' by (auto split: if_splits)
  next
    case False
    show ?thesis
    proof (cases "addr lhs \<noteq> addr l \<or> addr rhs \<noteq> addr r")
      case True
      with assms(3) False have
        "evaluateOp ev (BinaryOp (next_addr s) k' lhs rhs) (alloc s) = (res, s')"
        unfolding rebuildAndEvaluate_def k' by simp
      from evaluateOp_traced [OF _ this] False show ?thesis by simp
    next
      case same: False
      with assms(1,2) have "lhs = l" "rhs = r" by simp_all
      with assms(3) False same have "evaluateOp ev (BinaryOp a k l r) s = (res, s')"
        unfolding rebuildAndEvaluate_def by simp
      from evaluateOp_traced [OF _ this] False \<open>lhs = l\<close> \<open>rhs = r\<close> show ?thesis by simp
    qed
  qed
qed

lemma makeRamp_state [simp]: "snd (makeRamp b rm s) = alloc (alloc s)"
  by (simp add: makeRamp_def)

lemma mutate_traced:
  "in_heap H e \<Longrightarrow> heap_ok H s \<Longrightarrow> mutate ev e s = (res, s') \<Longrightarrow> traced s s'"
proof (induction ev e s arbitrary: H res s' rule: mutate_induct)
  case (Imm ev a t v s)
  then show ?case by simp
next
  case (Var ev x s)
  then show ?case by simp
next
  case (Broadcast ev a v n s)
  obtain r1 s1 where m: "mutate ev v s = (r1, s1)" by (cases "mutate ev v s")
  have "in_heap H v" using Broadcast.prems(1) by (simp add: in_heap_simps)
  from Broadcast.IH [OF this Broadcast.prems(2) m] have "traced s s1" .
  with Broadcast.prems(3) m show ?case by (cases r1) (auto split: if_splits)
next
  case (Ramp ev a b st n s)
  obtain r2 s2 where ops: "mutateOperands (mutate ev) b st s = (r2, s2)"
    by (cases "mutateOperands (mutate ev) b st s")
  have "in_heap H b" "in_heap H st" using Ramp.prems(1) by (simp_all add: in_heap_simps)
  with Ramp.IH have "traced s s2" using Ramp.prems(2) ops by (rule operands_traced)
  with Ramp.prems(3) ops show ?case by (cases r2) (auto split: if_splits)
next
  case (BinaryOp ev a k l r s)
  have hl: "in_heap H l" and hr: "in_heap H r"
    using BinaryOp.prems(1) by (simp_all add: in_heap_simps)
  have ops_traced: "traced s s2" if "mutateOperands (mutate ev) l r s = (r2, s2)" for r2 s2
    using BinaryOp.IH(1,2) hl hr BinaryOp.prems(2) that by (rule operands_traced)
  from BinaryOp.prems(3) show ?case
  proof (cases rule: mutate_BinaryOp_cases)
    case (E e)
    from ops_traced [OF E(1)] show ?thesis .
  next
    case (Id lhs rhs x)
    from ops_traced [OF Id(1)] show ?thesis .
  next
    case (Refold lhs rhs s2 b rm)
    from hl hr BinaryOp.prems(2) Refold(1) obtain H2 where
      H2: "heap_ok H2 s2" "in_heap H2 lhs" "in_heap H2 rhs"
      by (rule operands_heap)
    from refold_Some [OF Refold(3)] H2 have
      "heap_ok H2 s2" "in_heap H2 b" "in_heap H2 rm" "isBroadcast b" "isRamp rm"
      by auto
    from makeRamp_grows [OF this] obtain H3 where
      H3: "heap_ok H3 (snd (makeRamp b rm s2))" "in_heap H3 (fst (makeRamp b rm s2))"
      by (auto elim!: growsE)
    from BinaryOp.IH(3) [OF Refold(1,2,3) H3(2,1) Refold(4)]
    have "traced s2 s'" by simp
    with ops_traced [OF Refold(1)] show ?thesis by (rule traced_trans)
  next
    case (Rebuild lhs rhs s2)
    from hl hr BinaryOp.prems(2) Rebuild(1) obtain H2 where
      same: "addr lhs = addr l \<longrightarrow> lhs = l" "addr rhs = addr r \<longrightarrow> rhs = r"
      by (rule operands_heap)
    from same Rebuild(4) have "traced s2 s'" by (auto intro: rebuildAndEvaluate_traced)
    with ops_traced [OF Rebuild(1)] show ?thesis by (rule traced_trans)
  qed
next
  case (Cast ev a dt src s)
  show ?case
  proof (cases "isConstant src")
    case True
    with Cast.prems(3) have "evaluateOp ev (Cast a dt src) s = (res, s')" by simp
    from evaluateOp_traced [OF _ this] True show ?thesis by simp
  next
    case False
    with Cast.prems(3) show ?thesis by simp
  qed
next
  case (Intrinsics ev a f ps s)
  obtain r1 s1 where ps: "mutateParams (mutate ev) ps s = (r1, s1)"
    by (cases "mutateParams (mutate ev) ps s")
  have hp: "in_heap H p" if "p \<in> set ps" for p
    using Intrinsics.prems(1) that by (simp add: in_heap_simps)
  have t1: "traced s s1"
  proof (rule params_traced [OF _ hp Intrinsics.prems(2) ps])
    show "traced t t'"
      if "p \<in> set ps" "in_heap Ha p" "heap_ok Ha t" "mutate ev p t = (res, t')"
      for p t Ha res t'
      using that by (rule Intrinsics.IH)
  qed
  show ?case
  proof (cases r1)
    case (Inl e)
    with Intrinsics.prems(3) ps t1 show ?thesis by simp
  next
    case (Inr xs)
    from hp Intrinsics.prems(2) ps [unfolded Inr] have
      same: "map addr ps = map addr xs \<longrightarrow> xs = ps"
      by (rule params_heap)
    have "traced s1 s'"
    proof (cases "\<not> list_all isConstant xs \<or> \<not> isPure f")
      case True
      with Intrinsics.prems(3) ps Inr show ?thesis by (auto simp: Let_def split: if_splits)
    next
      case False
      show ?thesis
      proof (cases "map addr ps \<noteq> map addr xs")
        case True
        with Intrinsics.prems(3) ps Inr False have
          "evaluateOp ev (Intrinsics (next_addr s1) f xs) (alloc s1) = (res, s')"
          by (simp add: Let_def)
        from evaluateOp_traced [OF _ this] False show ?thesis by simp
      next
        case un: False
        with same have "xs = ps" by simp
        with Intrinsics.prems(3) ps Inr False un have
          "evaluateOp ev (Intrinsics a f ps) s1 = (res, s')"
          by (simp add: Let_def)
        from evaluateOp_traced [OF _ this] False \<open>xs = ps\<close> show ?thesis by simp
      qed
    qed
    with t1 show ?thesis by (rule traced_trans)
  qed
next
  case (Load ev a dt h i m s)
  obtain r2 s2 where ops: "mutateOperands (mutate ev) i m s = (r2, s2)"
    by (cases "mutateOperands (mutate ev) i m s")
  have "in_heap H i" "in_heap H m" using Load.prems(1) by (simp_all add: in_heap_simps)
  with Load.IH have "traced s s2" using Load.prems(2) ops by (rule operands_traced)
  with Load.prems(3) ops show ?case by (cases r2) (auto split: if_splits)
qed


subsection \<open>The result of a run is stable\<close>

lemma stableD: "stable ev x \<Longrightarrow> mutate ev x t = (Inr x, t)"
  by (simp add: stable_def)

lemma stable_Imm [simp]: "stable ev (Imm a t v)"
  by (simp add: stable_def)

lemma stable_operands:
  "stable ev lhs \<Longrightarrow> stable ev rhs \<Longrightarrow> mutateOperands (mutate ev) lhs rhs t = (Inr (lhs, rhs), t)"
  by (simp add: mutateOperands_def stableD)

lemma stable_params:
  "(\<And>x. x \<in> set xs \<Longrightarrow> stable ev x) \<Longrightarrow> mutateParams (mutate ev) xs t = (Inr xs, t)"
  by (induction xs arbitrary: t) (simp_all add: stableD)

lemma newBinaryOpOfType_option_of:
  "newBinaryOpOfType (expr_type k) lhs rhs (option_of k) s = newBinaryOp k lhs rhs s"
  by (cases k) simp_all

lemma operands_runs:
  assumes "in_heap H l" and "in_heap H r" and "heap_ok H s"
    and "mutateOperands (mutate ev) l r s = (Inr (lhs, rhs), s2)"
  obtains s1 H1 where "mutate ev l s = (Inr lhs, s1)" "in_heap H1 r" "heap_ok H1 s1"
    "mutate ev r s1 = (Inr rhs, s2)"
proof -
  from assms(4) obtain s1 where 1: "mutate ev l s = (Inr lhs, s1)"
    and 2: "mutate ev r s1 = (Inr rhs, s2)"
    by (auto simp: mutateOperands_Inr)
  from mutate_grows [OF assms(1,3) 1] obtain H1 where
    H1: "H \<subseteq>\<^sub>m H1" "heap_ok H1 s1"
    by (auto elim!: growsE)
  have "in_heap H1 r" using assms(2) H1(1) by (rule in_heap_mono)
  with 1 show ?thesis using H1(2) 2 by (rule that)
qed

lemma params_runs:
  assumes "\<And>p. p \<in> set ps \<Longrightarrow> in_heap H p" and "heap_ok H s"
    and "mutateParams (mutate ev) ps s = (Inr xs, s1)" and "set ps \<subseteq> S"
  shows "list_all2 (\<lambda>p x. p \<in> S \<and>
            (\<exists>H t t'. in_heap H p \<and> heap_ok H t \<and> mutate ev p t = (Inr x, t'))) ps xs"
  using assms
proof (induction ps arbitrary: H s xs)
  case Nil
  then show ?case by simp
next
  case (Cons p ps)
  from Cons.prems(3) obtain x s2 ys where
    1: "mutate ev p s = (Inr x, s2)" and 2: "mutateParams (mutate ev) ps s2 = (Inr ys, s1)"
    and 3: "xs = x # ys"
    by (auto split: prod.splits sum.splits)
  have p: "in_heap H p" using Cons.prems(1) by simp
  from mutate_grows [OF p Cons.prems(2) 1] obtain H2 where
    H2: "H \<subseteq>\<^sub>m H2" "heap_ok H2 s2"
    by (auto elim!: growsE)
  have "list_all2 (\<lambda>p x. p \<in> S \<and>
            (\<exists>H t t'. in_heap H p \<and> heap_ok H t \<and> mutate ev p t = (Inr x, t'))) ps ys"
  proof (rule Cons.IH [OF _ H2(2) 2])
    show "in_heap H2 q" if "q \<in> set ps" for q
      using Cons.prems(1) [of q] that H2(1) by (auto intro: in_heap_mono)
    show "set ps \<subseteq> S" using Cons.prems(4) by simp
  qed
  moreover have "\<exists>H t t'. in_heap H p \<and> heap_ok H t \<and> mutate ev p t = (Inr x, t')"
    using p Cons.prems(2) 1 by blast
  moreover have "p \<in> S" using Cons.prems(4) by simp
  ultimately show ?case using 3 by simp
qed

lemma stable_rebuilt:
  assumes "stable ev lhs" and "stable ev rhs"
    and "identity k lhs rhs = None" and "refold k lhs rhs = None"
    and "\<not> isConstant lhs \<or> \<not> isConstant rhs"
  shows "stable ev (BinaryOp a k lhs rhs)"
  unfolding stable_def
  using assms(5)
  by (auto simp add: mutate_BinaryOp stable_operands [OF assms(1,2)] afterOperands_def assms(3,4)
        rebuildAndEvaluate_def simp del: mutate.simps)

lemma rebuildAndEvaluate_stable:
  assumes "stable ev lhs" and "stable ev rhs"
    and "identity k lhs rhs = None" and "refold k lhs rhs = None"
    and "addr lhs = addr l \<longrightarrow> lhs = l" and "addr rhs = addr r \<longrightarrow> rhs = r"
    and "rebuildAndEvaluate ev a k l r lhs rhs (option_of k) s = (Inr e', s')"
  shows "stable ev e'"
proof (cases "\<not> isConstant lhs \<or> \<not> isConstant rhs")
  case True
  show ?thesis
  proof (cases "addr lhs \<noteq> addr l \<or> addr rhs \<noteq> addr r")
    case changed: True
    with assms(7) True have "e' = BinaryOp (next_addr s) k lhs rhs"
      unfolding rebuildAndEvaluate_def newBinaryOpOfType_option_of newBinaryOp_def by auto
    with stable_rebuilt [OF assms(1-4) True] show ?thesis by simp
  next
    case False
    with assms(5,6) have "lhs = l" "rhs = r" by simp_all
    with assms(7) True False have "e' = BinaryOp a k lhs rhs"
      unfolding rebuildAndEvaluate_def by auto
    with stable_rebuilt [OF assms(1-4) True] show ?thesis by simp
  qed
next
  case False
  with assms(7) obtain n s1 where "evaluateOp ev n s1 = (Inr e', s')"
    unfolding rebuildAndEvaluate_def newBinaryOpOfType_option_of newBinaryOp_def
    by (auto split: if_splits)
  from evaluateOp_Inr [OF this] show ?thesis by simp
qed

lemma mutate_stable:
  "in_heap H e \<Longrightarrow> heap_ok H s \<Longrightarrow> mutate ev e s = (Inr e', s') \<Longrightarrow> stable ev e'"
proof (induction ev e s arbitrary: H e' s' rule: mutate_induct)
  case (Imm ev a t v s)
  then show ?case by auto
next
  case (Var ev x s)
  then show ?case by (auto simp: stable_def)
next
  case (Broadcast ev a v n s)
  from Broadcast.prems(3) obtain x s1 where m: "mutate ev v s = (Inr x, s1)"
    by (auto split: prod.splits sum.splits)
  have hv: "in_heap H v" using Broadcast.prems(1) by (simp add: in_heap_simps)
  from Broadcast.IH [OF hv Broadcast.prems(2) m] have st: "stable ev x" .
  have same: "addr x = addr v \<longrightarrow> x = v"
    using mutate_same_addr [OF hv Broadcast.prems(2) m] by blast
  from Broadcast.prems(3) m same obtain a' where "e' = Broadcast a' x n"
    by (auto split: if_splits)
  with st show ?case by (simp add: stable_def)
next
  case (Ramp ev a b st n s)
  from Ramp.prems(3) obtain lhs rhs s2 where
    ops: "mutateOperands (mutate ev) b st s = (Inr (lhs, rhs), s2)"
    by (auto split: prod.splits sum.splits)
  have hb: "in_heap H b" and hs: "in_heap H st"
    using Ramp.prems(1) by (simp_all add: in_heap_simps)
  from hb hs Ramp.prems(2) ops obtain s1 H1 where
    runs: "mutate ev b s = (Inr lhs, s1)" "in_heap H1 st" "heap_ok H1 s1"
      "mutate ev st s1 = (Inr rhs, s2)"
    by (rule operands_runs)
  have st: "stable ev lhs" "stable ev rhs"
    using Ramp.IH(1) [OF hb Ramp.prems(2) runs(1)] Ramp.IH(2) [OF runs(2,3,4)] by simp_all
  from hb hs Ramp.prems(2) ops obtain H2 where
    same: "addr lhs = addr b \<longrightarrow> lhs = b" "addr rhs = addr st \<longrightarrow> rhs = st"
    by (rule operands_heap)
  from Ramp.prems(3) ops same obtain a' where "e' = Ramp a' lhs rhs n"
    by (auto split: if_splits)
  with st show ?case by (simp add: stable_def stable_operands)
next
  case (BinaryOp ev a k l r s)
  have hl: "in_heap H l" and hr: "in_heap H r"
    using BinaryOp.prems(1) by (simp_all add: in_heap_simps)
  have st: "stable ev lhs \<and> stable ev rhs"
    if ops: "mutateOperands (mutate ev) l r s = (Inr (lhs, rhs), s2)" for lhs rhs s2
  proof -
    from hl hr BinaryOp.prems(2) ops obtain s1 H1 where
      runs: "mutate ev l s = (Inr lhs, s1)" "in_heap H1 r" "heap_ok H1 s1"
        "mutate ev r s1 = (Inr rhs, s2)"
      by (rule operands_runs)
    show ?thesis
      using BinaryOp.IH(1) [OF hl BinaryOp.prems(2) runs(1)] BinaryOp.IH(2) [OF runs(2,3,4)]
      by simp
  qed
  from BinaryOp.prems(3) show ?case
  proof (cases rule: mutate_BinaryOp_cases)
    case (E e)
    then show ?thesis by simp
  next
    case (Id lhs rhs x)
    from identity_Some [OF Id(2)] st [OF Id(1)] Id(3) show ?thesis by auto
  next
    case (Refold lhs rhs s2 b rm)
    from hl hr BinaryOp.prems(2) Refold(1) obtain H2 where
      H2: "heap_ok H2 s2" "in_heap H2 lhs" "in_heap H2 rhs"
      by (rule operands_heap)
    from refold_Some [OF Refold(3)] H2 have
      "heap_ok H2 s2" "in_heap H2 b" "in_heap H2 rm" "isBroadcast b" "isRamp rm"
      by auto
    from makeRamp_grows [OF this] obtain H3 where
      H3: "heap_ok H3 (snd (makeRamp b rm s2))" "in_heap H3 (fst (makeRamp b rm s2))"
      by (auto elim!: growsE)
    from BinaryOp.IH(3) [OF Refold(1,2,3) H3(2,1) Refold(4)] show ?thesis .
  next
    case (Rebuild lhs rhs s2)
    from hl hr BinaryOp.prems(2) Rebuild(1) obtain H2 where
      same: "addr lhs = addr l \<longrightarrow> lhs = l" "addr rhs = addr r \<longrightarrow> rhs = r"
      by (rule operands_heap)
    from st [OF Rebuild(1)] have "stable ev lhs" "stable ev rhs" by simp_all
    from this Rebuild(2,3) same Rebuild(4) show ?thesis by (rule rebuildAndEvaluate_stable)
  qed
next
  case (Cast ev a dt src s)
  show ?case
  proof (cases "isConstant src")
    case True
    with Cast.prems(3) have "evaluateOp ev (Cast a dt src) s = (Inr e', s')" by simp
    from evaluateOp_Inr [OF this] show ?thesis by simp
  next
    case False
    with Cast.prems(3) show ?thesis by (auto simp: stable_def)
  qed
next
  case (Intrinsics ev a f ps s)
  from Intrinsics.prems(3) obtain xs s1 where
    ps: "mutateParams (mutate ev) ps s = (Inr xs, s1)"
    by (auto split: prod.splits sum.splits)
  have hp: "in_heap H p" if "p \<in> set ps" for p
    using Intrinsics.prems(1) that by (simp add: in_heap_simps)
  have "list_all2 (\<lambda>p x. p \<in> set ps \<and>
       (\<exists>H t t'. in_heap H p \<and> heap_ok H t \<and> mutate ev p t = (Inr x, t'))) ps xs"
    using hp Intrinsics.prems(2) ps subset_refl by (rule params_runs)
  then have "list_all2 (\<lambda>p x. stable ev x) ps xs"
    by (rule list_all2_mono) (use Intrinsics.IH in blast)
  then have st: "stable ev x" if "x \<in> set xs" for x
    using that by (auto simp: list_all2_conv_all_nth in_set_conv_nth)
  from hp Intrinsics.prems(2) ps obtain H1 where
    same: "map addr ps = map addr xs \<longrightarrow> xs = ps"
    by (rule params_heap)
  show ?case
  proof (cases "\<not> list_all isConstant xs \<or> \<not> isPure f")
    case True
    with Intrinsics.prems(3) ps same obtain a' where "e' = Intrinsics a' f xs"
      by (auto simp: Let_def split: if_splits)
    with True show ?thesis
      by (auto simp: stable_def stable_params [OF st] Let_def)
  next
    case False
    with Intrinsics.prems(3) ps obtain n s2 where "evaluateOp ev n s2 = (Inr e', s')"
      by (auto simp: Let_def split: if_splits)
    from evaluateOp_Inr [OF this] show ?thesis by simp
  qed
next
  case (Load ev a dt h i m s)
  from Load.prems(3) obtain lhs rhs s2 where
    ops: "mutateOperands (mutate ev) i m s = (Inr (lhs, rhs), s2)"
    by (auto split: prod.splits sum.splits)
  have hi: "in_heap H i" and hm: "in_heap H m"
    using Load.prems(1) by (simp_all add: in_heap_simps)
  from hi hm Load.prems(2) ops obtain s1 H1 where
    runs: "mutate ev i s = (Inr lhs, s1)" "in_heap H1 m" "heap_ok H1 s1"
      "mutate ev m s1 = (Inr rhs, s2)"
    by (rule operands_runs)
  have st: "stable ev lhs" "stable ev rhs"
    using Load.IH(1) [OF hi Load.prems(2) runs(1)] Load.IH(2) [OF runs(2,3,4)] by simp_all
  from hi hm Load.prems(2) ops obtain H2 where
    same: "addr lhs = addr i \<longrightarrow> lhs = i" "addr rhs = addr m \<longrightarrow> rhs = m"
    by (rule operands_heap)
  from Load.prems(3) ops same obtain a' where "e' = Load a' dt h lhs rhs"
    by (auto split: if_splits)
  with st show ?case by (simp add: stable_def stable_operands)
qed


subsection \<open>Folding a constant expression\<close>

lemma collapsible_isConstant: "collapsible e \<Longrightarrow> isConstant e"
  by (induction e) (auto simp: list_all_iff)

lemma immediate_of_facts:
  assumes "immediate_of ev e x"
  shows "isConstant x" and "\<not> isBroadcast x" and "\<not> isRamp x"
    and "isIntImm x k \<longleftrightarrow> scalar_type (dtype e) = IntT \<and> ev e = k"
    and "isFloatImmOne x \<longleftrightarrow> scalar_type (dtype e) = FloatT \<and> ev e = 0x3F800000"
    and "\<not> isBroadcastOfIntImm x k"
    and "scalar_type (dtype x) = scalar_type (dtype e)"
  using assms by (auto simp: immediate_of_def)

lemma identity_collapse:
  assumes "respects_identities ev" and "isConstant l" and "isConstant r"
    and "scalar_type (dtype l) = scalar_type (dtype r)"
    and "immediate_of ev l lhs" and "immediate_of ev r rhs"
    and "identity k lhs rhs = Some x"
  shows "immediate_of ev (BinaryOp a k l r) x"
proof -
  note f = immediate_of_facts [OF assms(5)] immediate_of_facts [OF assms(6)]
  from assms(1,2,3,4) have laws:
    "scalar_type (dtype l) = IntT \<and> ev l = 0 \<longrightarrow> ev (BinaryOp a AddOp l r) = ev r"
    "scalar_type (dtype r) = IntT \<and> ev r = 0 \<longrightarrow> ev (BinaryOp a AddOp l r) = ev l"
    "scalar_type (dtype r) = IntT \<and> ev r = 0 \<longrightarrow> ev (BinaryOp a SubOp l r) = ev l"
    "scalar_type (dtype l) = IntT \<and> ev l = 1 \<longrightarrow> ev (BinaryOp a MulOp l r) = ev r"
    "scalar_type (dtype r) = IntT \<and> ev r = 1 \<longrightarrow> ev (BinaryOp a MulOp l r) = ev l"
    "scalar_type (dtype l) = FloatT \<and> ev l = 0x3F800000 \<longrightarrow> ev (BinaryOp a MulOp l r) = ev r"
    "scalar_type (dtype r) = FloatT \<and> ev r = 0x3F800000 \<longrightarrow> ev (BinaryOp a MulOp l r) = ev l"
    "scalar_type (dtype r) = IntT \<and> ev r = 1 \<longrightarrow> ev (BinaryOp a DivOp l r) = ev l"
    unfolding respects_identities_def by blast+
  from assms(5) obtain c1 where lhs: "lhs = Imm c1 (scalar_type (dtype l)) (ev l)"
    by (auto simp: immediate_of_def)
  from assms(6) obtain c2 where rhs: "rhs = Imm c2 (scalar_type (dtype r)) (ev r)"
    by (auto simp: immediate_of_def)
  show ?thesis
  proof (cases k)
    case AddOp
    with assms(7) laws(1,2) assms(4) show ?thesis
      by (auto simp: immediate_of_def lhs rhs split: if_splits)
  next
    case SubOp
    with assms(7) laws(3) assms(4) show ?thesis
      by (auto simp: immediate_of_def lhs rhs split: if_splits)
  next
    case MulOp
    with assms(7) laws(4,5,6,7) assms(4) show ?thesis
      by (auto simp: immediate_of_def lhs rhs split: if_splits)
  next
    case DivOp
    with assms(7) laws(8) assms(4) show ?thesis
      by (auto simp: immediate_of_def lhs rhs split: if_splits)
  qed (use assms(7) in simp_all)
qed

lemma rebuild_collapse:
  assumes "compositional ev" and "isConstant l" and "isConstant r"
    and "supported (scalar_type (dtype l))"
    and "immediate_of ev l lhs" and "immediate_of ev r rhs"
  shows "\<exists>x s'. rebuildAndEvaluate ev a k l r lhs rhs (option_of k) s = (Inr x, s')
          \<and> immediate_of ev (BinaryOp a k l r) x"
proof -
  note f = immediate_of_facts [OF assms(5)] immediate_of_facts [OF assms(6)]
  have cong: "ev (BinaryOp a' k lhs rhs) = ev (BinaryOp a k l r)" for a'
    using assms(1,2,3,5,6) unfolding compositional_def by blast
  show ?thesis
  proof (cases "addr lhs \<noteq> addr l \<or> addr rhs \<noteq> addr r")
    case True
    then show ?thesis
      using f(1,8,7) assms(4) cong [of "next_addr s"]
      by (simp add: rebuildAndEvaluate_def newBinaryOpOfType_option_of newBinaryOp_def
            evaluateOp_def Let_def immediate_of_def)
  next
    case False
    then show ?thesis
      using f(1,8) assms(4)
      by (simp add: rebuildAndEvaluate_def evaluateOp_def Let_def immediate_of_def)
  qed
qed

lemma params_collapse:
  assumes "\<And>p t. p \<in> set ps \<Longrightarrow> \<exists>x t'. mutate ev p t = (Inr x, t') \<and> immediate_of ev p x"
  shows "\<exists>xs s'. mutateParams (mutate ev) ps s = (Inr xs, s') \<and> list_all2 (immediate_of ev) ps xs"
  using assms
proof (induction ps arbitrary: s)
  case Nil
  then show ?case by simp
next
  case (Cons p ps)
  from Cons.prems [of p s] obtain x s1 where
    1: "mutate ev p s = (Inr x, s1)" "immediate_of ev p x" by auto
  from Cons.IH [of s1] Cons.prems obtain xs s2 where
    2: "mutateParams (mutate ev) ps s1 = (Inr xs, s2)" "list_all2 (immediate_of ev) ps xs"
    by auto
  from 1 2 show ?case by simp
qed

lemma refold_immediates:
  "\<not> isBroadcast lhs \<Longrightarrow> \<not> isBroadcast rhs \<Longrightarrow> refold k lhs rhs = None"
  by (cases k) simp_all

lemma intrinsics_scalar_type:
  "list_all2 (immediate_of ev) ps xs \<Longrightarrow>
     scalar_type (dtype (Intrinsics a' f xs)) = scalar_type (dtype (Intrinsics a f ps))"
  by (cases ps; cases xs) (auto simp: immediate_of_def)

lemma immediates_constant:
  "list_all2 (immediate_of ev) ps xs \<Longrightarrow> list_all isConstant xs"
  by (induction rule: list_all2_induct) (auto simp: immediate_of_def)

lemma constant_collapse:
  assumes "compositional ev" and "respects_identities ev"
  shows "collapsible e \<Longrightarrow> \<exists>x s'. mutate ev e s = (Inr x, s') \<and> immediate_of ev e x"
proof (induction e arbitrary: s)
  case (Imm a t v)
  from assms(1) have "ev (Imm a t v) = v" unfolding compositional_def by blast
  then show ?case by (simp add: immediate_of_def)
next
  case (BinaryOp a k l r)
  from BinaryOp.prems have cl: "collapsible l" and cr: "collapsible r"
    and ty: "scalar_type (dtype l) = scalar_type (dtype r)"
    and su: "supported (scalar_type (dtype l))"
    by auto
  from BinaryOp.IH(1) [OF cl, of s] obtain lhs s1 where
    1: "mutate ev l s = (Inr lhs, s1)" "immediate_of ev l lhs" by auto
  from BinaryOp.IH(2) [OF cr, of s1] obtain rhs s2 where
    2: "mutate ev r s1 = (Inr rhs, s2)" "immediate_of ev r rhs" by auto
  have ops: "mutateOperands (mutate ev) l r s = (Inr (lhs, rhs), s2)"
    using 1(1) 2(1) by (simp add: mutateOperands_Inr)
  note kl = collapsible_isConstant [OF cl] and kr = collapsible_isConstant [OF cr]
  show ?case
  proof (cases "identity k lhs rhs")
    case (Some x)
    from identity_collapse [OF assms(2) kl kr ty 1(2) 2(2) Some, of a] ops Some
    show ?thesis by (simp add: mutate_BinaryOp afterOperands_def del: mutate.simps)
  next
    case None
    have rf: "refold k lhs rhs = None"
      using immediate_of_facts(2) [OF 1(2)] immediate_of_facts(2) [OF 2(2)]
      by (rule refold_immediates)
    from rebuild_collapse [OF assms(1) kl kr su 1(2) 2(2), of a k s2] ops None rf
    show ?thesis by (simp add: mutate_BinaryOp afterOperands_def del: mutate.simps)
  qed
next
  case (Cast a dt src)
  then show ?case by (simp add: evaluateOp_def Let_def immediate_of_def)
next
  case (Intrinsics a f ps)
  from Intrinsics.prems have pure: "isPure f" and cps: "list_all collapsible ps"
    and su: "supported (scalar_type (dtype (Intrinsics a f ps)))"
    by simp_all
  have "\<exists>xs s'. mutateParams (mutate ev) ps s = (Inr xs, s') \<and> list_all2 (immediate_of ev) ps xs"
  proof (rule params_collapse)
    fix p t assume "p \<in> set ps"
    with cps have "collapsible p" by (simp add: list_all_iff)
    with \<open>p \<in> set ps\<close> show "\<exists>x t'. mutate ev p t = (Inr x, t') \<and> immediate_of ev p x"
      by (rule Intrinsics.IH)
  qed
  then obtain xs s1 where
    ps: "mutateParams (mutate ev) ps s = (Inr xs, s1)" and imm: "list_all2 (immediate_of ev) ps xs"
    by auto
  have kps: "list_all isConstant ps"
    using cps collapsible_isConstant by (auto simp: list_all_iff)
  have cong: "ev (Intrinsics a' f xs) = ev (Intrinsics a f ps)" for a'
    using assms(1) kps imm unfolding compositional_def by blast
  note st = intrinsics_scalar_type [OF imm, of _ f a]
  note kxs = immediates_constant [OF imm]
  show ?case
  proof (cases "map addr ps \<noteq> map addr xs")
    case True
    then show ?thesis
      using ps kxs pure su st [of "next_addr s1"] cong [of "next_addr s1"]
      by (simp add: Let_def evaluateOp_def immediate_of_def)
  next
    case False
    then show ?thesis
      using ps kxs pure su
      by (simp add: Let_def evaluateOp_def immediate_of_def)
  qed
qed simp_all

lemma int_eval_params:
  "list_all2 (immediate_of int_eval) ps xs \<Longrightarrow> map int_eval xs = map int_eval ps"
  by (induction rule: list_all2_induct) (auto simp: immediate_of_def)

lemma compositional_int_eval: "compositional int_eval"
  unfolding compositional_def
proof (intro conjI allI impI)
  fix a a' k l r lhs rhs
  assume "isConstant l \<and> isConstant r \<and> immediate_of int_eval l lhs \<and> immediate_of int_eval r rhs"
  then show "int_eval (BinaryOp a' k lhs rhs) = int_eval (BinaryOp a k l r)"
    by (auto simp: immediate_of_def)
next
  fix a a' f ps xs
  assume "list_all isConstant ps \<and> list_all2 (immediate_of int_eval) ps xs"
  then have "map int_eval xs = map int_eval ps" by (simp add: int_eval_params)
  then show "int_eval (Intrinsics a' f xs) = int_eval (Intrinsics a f ps)"
    by simp
qed simp

lemma respects_identities_int_eval: "respects_identities int_eval"
  unfolding respects_identities_def by simp


subsection \<open>Folding keeps the type of a well-typed node\<close>

lemma constant_scalar: "well_typed x \<Longrightarrow> isConstant x \<Longrightarrow> lanes (dtype x) = 1"
proof (induction x)
  case (Intrinsics a f ps)
  then show ?case by (cases ps) (auto simp: list_all_iff)
qed auto

lemma evaluateOp_keeps_type:
  assumes "well_typed v" and "isConstant v" and "evaluateOp ev v s = (Inr e', s')"
  shows "keeps_type v e'"
proof -
  from evaluateOp_Inr [OF assms(3)] have "e' = Imm (next_addr s) (scalar_type (dtype v)) (ev v)"
    by simp
  moreover have "dtype v = Dtype (scalar_type (dtype v)) 1"
    using constant_scalar [OF assms(1,2)] by (cases "dtype v") simp
  ultimately show ?thesis by (simp add: keeps_type_def)
qed

lemma rebuildAndEvaluate_keeps_type:
  assumes "well_typed (BinaryOp a k l r)" and "keeps_type l lhs" and "keeps_type r rhs"
    and "rebuildAndEvaluate ev a k l r lhs rhs opt s = (Inr e', s')"
  shows "keeps_type (BinaryOp a k l r) e'"
proof -
  obtain k' where k': "newBinaryOpOfType (expr_type k) lhs rhs opt s
          = (Inr (BinaryOp (next_addr s) k' lhs rhs), alloc s)"
    using newBinaryOpOfType_expr_type by blast
  let ?new = "BinaryOp (next_addr s) k' lhs rhs"
  have new: "keeps_type (BinaryOp a k l r) ?new"
    using assms(1,2,3) by (simp add: keeps_type_def)
  have old: "keeps_type (BinaryOp a k l r) (BinaryOp a k l r)"
    using assms(1) by (simp add: keeps_type_def)
  have dt: "dtype lhs = dtype l" using assms(2) by (simp add: keeps_type_def)
  show ?thesis
  proof (cases "\<not> isConstant lhs \<or> \<not> isConstant rhs")
    case True
    with assms(4) new old show ?thesis
      unfolding rebuildAndEvaluate_def k' by (auto split: if_splits)
  next
    case False
    then have one: "lanes (dtype l) = 1"
      using constant_scalar [of lhs] assms(2) by (simp add: keeps_type_def)
    from assms(4) False obtain n s1 where
      ev: "evaluateOp ev n s1 = (Inr e', s')" and n: "n = ?new \<or> n = BinaryOp a k l r"
      unfolding rebuildAndEvaluate_def k' by (auto split: if_splits)
    from n dt have "dtype n = dtype l" by auto
    moreover from evaluateOp_Inr [OF ev] have "e' = Imm (next_addr s1) (scalar_type (dtype n)) (ev n)"
      by simp
    moreover have "dtype l = Dtype (scalar_type (dtype l)) 1"
      using one by (cases "dtype l") simp
    ultimately show ?thesis by (simp add: keeps_type_def)
  qed
qed

lemma makeRamp_keeps_type:
  assumes "well_typed b" and "well_typed rm" and "isBroadcast b" and "isRamp rm"
    and "dtype b = dtype rm"
  shows "keeps_type b (fst (makeRamp b rm s))"
proof -
  from assms(3) obtain ab v n where b: "b = Broadcast ab v n" by (cases b) auto
  from assms(4) obtain ar base st ln where r: "rm = Ramp ar base st ln" by (cases rm) auto
  from assms(1,2,5) have "dtype v = dtype base"
    unfolding b r by (cases "dtype v"; cases "dtype base") simp
  with assms(1,2,5) show ?thesis
    by (simp add: keeps_type_def makeRamp_def b r)
qed

lemma keeps_type_refl: "well_typed e \<Longrightarrow> keeps_type e e"
  by (simp add: keeps_type_def)

lemma intrinsics_keeps_type:
  assumes "list_all2 keeps_type ps xs"
  shows "keeps_type (Intrinsics a f ps) (Intrinsics a' f xs)"
proof -
  from assms have "list_all well_typed xs"
    by (induction rule: list_all2_induct) (auto simp: keeps_type_def)
  moreover from assms have "dtype (Intrinsics a' f xs) = dtype (Intrinsics a f ps)"
    by (cases ps; cases xs) (auto simp: keeps_type_def)
  ultimately show ?thesis by (simp add: keeps_type_def)
qed

lemma mutate_keeps_type:
  "well_typed e \<Longrightarrow> mutate ev e s = (Inr e', s') \<Longrightarrow> keeps_type e e'"
proof (induction ev e s arbitrary: e' s' rule: mutate_induct)
  case (Imm ev a t v s)
  then show ?case by (auto simp: keeps_type_def)
next
  case (Var ev x s)
  then show ?case by (auto simp: keeps_type_def)
next
  case (Broadcast ev a v n s)
  from Broadcast.prems(2) obtain x s1 where m: "mutate ev v s = (Inr x, s1)"
    by (auto split: prod.splits sum.splits)
  from Broadcast.prems(1) have "well_typed v" by simp
  from Broadcast.IH [OF this m] have "keeps_type v x" .
  with Broadcast.prems m show ?case
    by (auto simp: keeps_type_def split: if_splits)
next
  case (Ramp ev a b st n s)
  from Ramp.prems(2) obtain lhs rhs s2 where
    ops: "mutateOperands (mutate ev) b st s = (Inr (lhs, rhs), s2)"
    by (auto split: prod.splits sum.splits)
  then obtain s1 where 1: "mutate ev b s = (Inr lhs, s1)" and 2: "mutate ev st s1 = (Inr rhs, s2)"
    by (auto simp: mutateOperands_Inr)
  from Ramp.prems(1) have "well_typed b" "well_typed st" by simp_all
  from Ramp.IH(1) [OF this(1) 1] Ramp.IH(2) [OF this(2) 2]
  have "keeps_type b lhs" "keeps_type st rhs" .
  with Ramp.prems ops show ?case
    by (auto simp: keeps_type_def split: if_splits)
next
  case (BinaryOp ev a k l r s)
  from BinaryOp.prems(1) have wl: "well_typed l" and wr: "well_typed r"
    and eq: "dtype l = dtype r" by simp_all
  have kt: "keeps_type l lhs \<and> keeps_type r rhs"
    if "mutateOperands (mutate ev) l r s = (Inr (lhs, rhs), s2)" for lhs rhs s2
  proof -
    from that obtain s1 where 1: "mutate ev l s = (Inr lhs, s1)"
      and 2: "mutate ev r s1 = (Inr rhs, s2)"
      by (auto simp: mutateOperands_Inr)
    from BinaryOp.IH(1) [OF wl 1] BinaryOp.IH(2) [OF wr 2] show ?thesis by simp
  qed
  from BinaryOp.prems(2) show ?case
  proof (cases rule: mutate_BinaryOp_cases)
    case (E e)
    then show ?thesis by simp
  next
    case (Id lhs rhs x)
    from identity_Some [OF Id(2)] kt [OF Id(1)] Id(3) eq show ?thesis
      by (auto simp: keeps_type_def)
  next
    case (Refold lhs rhs s2 b rm)
    from kt [OF Refold(1)] eq have t: "well_typed lhs" "well_typed rhs"
      "dtype lhs = dtype l" "dtype rhs = dtype l"
      by (simp_all add: keeps_type_def)
    from refold_Some [OF Refold(3)] t have
      b: "well_typed b" "well_typed rm" "isBroadcast b" "isRamp rm" "dtype b = dtype rm"
      and bl: "dtype b = dtype l"
      by auto
    from makeRamp_keeps_type [OF b, of s2] have
      new: "well_typed (fst (makeRamp b rm s2))" "dtype (fst (makeRamp b rm s2)) = dtype b"
      by (simp_all add: keeps_type_def)
    from BinaryOp.IH(3) [OF Refold(1,2,3) new(1) Refold(4)] new(2) bl show ?thesis
      by (simp add: keeps_type_def)
  next
    case (Rebuild lhs rhs s2)
    from kt [OF Rebuild(1)] have "keeps_type l lhs" "keeps_type r rhs" by simp_all
    with BinaryOp.prems(1) show ?thesis
      using Rebuild(4) by (rule rebuildAndEvaluate_keeps_type)
  qed
next
  case (Cast ev a dt src s)
  show ?case
  proof (cases "isConstant src")
    case True
    with Cast.prems(2) have "evaluateOp ev (Cast a dt src) s = (Inr e', s')" by simp
    with Cast.prems(1) True show ?thesis by (auto intro: evaluateOp_keeps_type)
  next
    case False
    with Cast.prems show ?thesis by (auto simp: keeps_type_def)
  qed
next
  case (Intrinsics ev a f ps s)
  from Intrinsics.prems(2) obtain xs s1 where
    ps: "mutateParams (mutate ev) ps s = (Inr xs, s1)"
    by (auto split: prod.splits sum.splits)
  have all: "list_all2 keeps_type ps xs"
  proof (rule mutateParams_all2 [OF ps])
    fix p t x t' assume p: "p \<in> set ps" and m: "mutate ev p t = (Inr x, t')"
    from p Intrinsics.prems(1) have "well_typed p"
      by (simp add: list_all_iff)
    with p show "keeps_type p x" using m by (rule Intrinsics.IH)
  qed
  have new: "keeps_type (Intrinsics a f ps) (Intrinsics a' f xs)" for a'
    using all by (rule intrinsics_keeps_type)
  have old: "keeps_type (Intrinsics a f ps) (Intrinsics a f ps)"
    using Intrinsics.prems(1) by (rule keeps_type_refl)
  show ?case
  proof (cases "\<not> list_all isConstant xs \<or> \<not> isPure f")
    case True
    with Intrinsics.prems(2) ps new old show ?thesis
      by (auto simp: Let_def split: if_splits)
  next
    case False
    from Intrinsics.prems(2) ps False obtain n s2 where
      ev: "evaluateOp ev n s2 = (Inr e', s')"
      and n: "n = Intrinsics (next_addr s1) f xs \<or> n = Intrinsics a f ps \<and> map addr ps = map addr xs"
      by (auto simp: Let_def split: if_splits)
    from n new [of "next_addr s1"] have nt: "well_typed n" "dtype n = dtype (Intrinsics a f ps)"
      using Intrinsics.prems(1) by (auto simp: keeps_type_def)
    from evaluateOp_Inr [OF ev] have e': "e' = Imm (next_addr s2) (scalar_type (dtype n)) (ev n)"
      by simp
    have cn: "isConstant (Intrinsics (next_addr s1) f xs)" using False by simp
    from new [of "next_addr s1"] have wn: "well_typed (Intrinsics (next_addr s1) f xs)"
      and dn: "dtype (Intrinsics (next_addr s1) f xs) = dtype (Intrinsics a f ps)"
      unfolding keeps_type_def by blast+
    from constant_scalar [OF wn cn] have "lanes (dtype (Intrinsics a f ps)) = 1"
      unfolding dn .
    then have "dtype (Intrinsics a f ps) = Dtype (scalar_type (dtype (Intrinsics a f ps))) 1"
      by (cases "dtype (Intrinsics a f ps)") simp
    with e' nt(2) show ?thesis by (simp add: keeps_type_def)
  qed
next
  case (Load ev a dt h i m s)
  from Load.prems(2) obtain lhs rhs s2 where
    ops: "mutateOperands (mutate ev) i m s = (Inr (lhs, rhs), s2)"
    by (auto split: prod.splits sum.splits)
  then obtain s1 where 1: "mutate ev i s = (Inr lhs, s1)" and 2: "mutate ev m s1 = (Inr rhs, s2)"
    by (auto simp: mutateOperands_Inr)
  from Load.prems(1) have "well_typed i" "well_typed m" by simp_all
  from Load.IH(1) [OF this(1) 1] Load.IH(2) [OF this(2) 2]
  have "keeps_type i lhs" "keeps_type m rhs" .
  with Load.prems ops show ?case
    by (auto simp: keeps_type_def split: if_splits)
qed


subsection \<open>Folding next to an immediate\<close>

lemma mutateOperands_Imm_left:
  "mutateOperands (mutate ev) (Imm a t v) x s =
     (case mutate ev x s of (Inl e, s1) \<Rightarrow> (Inl e, s1) | (Inr x', s1) \<Rightarrow> (Inr (Imm a t v, x'), s1))"
  by (simp add: mutateOperands_def)

lemma mutateOperands_Imm_right:
  "mutateOperands (mutate ev) x (Imm a t v) s =
     (case mutate ev x s of (Inl e, s1) \<Rightarrow> (Inl e, s1) | (Inr x', s1) \<Rightarrow> (Inr (x', Imm a t v), s1))"
  by (simp add: mutateOperands_def split: prod.splits sum.splits)

lemma strip_isIntImm: "isIntImm x k \<Longrightarrow> strip x = Imm 0 IntT k"
  by (cases x) auto

lemma strip_isFloatImmOne: "isFloatImmOne x \<Longrightarrow> strip x = Imm 0 FloatT 0x3F800000"
  by (cases x) auto

lemma integer_identities:
  "same_outcome (mutate ev (BinaryOp a AddOp (Imm c IntT 0) x) s) (mutate ev x s)"
  "same_outcome (mutate ev (BinaryOp a AddOp x (Imm c IntT 0)) s) (mutate ev x s)"
  "same_outcome (mutate ev (BinaryOp a MulOp (Imm c IntT 1) x) s) (mutate ev x s)"
  "same_outcome (mutate ev (BinaryOp a MulOp x (Imm c IntT 1)) s) (mutate ev x s)"
  "same_outcome (mutate ev (BinaryOp a SubOp x (Imm c IntT 0)) s) (mutate ev x s)"
  "same_outcome (mutate ev (BinaryOp a DivOp x (Imm c IntT 1)) s) (mutate ev x s)"
proof -
  obtain res s1 where m: "mutate ev x s = (res, s1)" by (cases "mutate ev x s")
  show "same_outcome (mutate ev (BinaryOp a AddOp (Imm c IntT 0) x) s) (mutate ev x s)"
    by (cases res) (simp_all add: m mutateOperands_Imm_left)
  show "same_outcome (mutate ev (BinaryOp a AddOp x (Imm c IntT 0)) s) (mutate ev x s)"
    by (cases res) (simp_all add: m mutateOperands_Imm_right strip_isIntImm)
  show "same_outcome (mutate ev (BinaryOp a MulOp (Imm c IntT 1) x) s) (mutate ev x s)"
    by (cases res) (simp_all add: m mutateOperands_Imm_left)
  show "same_outcome (mutate ev (BinaryOp a MulOp x (Imm c IntT 1)) s) (mutate ev x s)"
    by (cases res) (simp_all add: m mutateOperands_Imm_right strip_isIntImm)
  show "same_outcome (mutate ev (BinaryOp a SubOp x (Imm c IntT 0)) s) (mutate ev x s)"
    by (cases res) (simp_all add: m mutateOperands_Imm_right)
  show "same_outcome (mutate ev (BinaryOp a DivOp x (Imm c IntT 1)) s) (mutate ev x s)"
    by (cases res) (simp_all add: m mutateOperands_Imm_right)
qed

lemma float_identities:
  assumes "\<forall>x' s1. mutate ev x s = (Inr x', s1) \<longrightarrow> \<not> isIntImm x' 1"
  shows "same_outcome (mutate ev (BinaryOp a MulOp (Imm c FloatT 0x3F800000) x) s)
           (mutate ev x s)"
    and "same_outcome (mutate ev (BinaryOp a MulOp x (Imm c FloatT 0x3F800000)) s)
           (mutate ev x s)"
proof -
  obtain res s1 where m: "mutate ev x s = (res, s1)" by (cases "mutate ev x s")
  show "same_outcome (mutate ev (BinaryOp a MulOp (Imm c FloatT 0x3F800000) x) s)
           (mutate ev x s)"
    using assms by (cases res) (simp_all add: m mutateOperands_Imm_left)
  show "same_outcome (mutate ev (BinaryOp a MulOp x (Imm c FloatT 0x3F800000)) s)
           (mutate ev x s)"
    using assms by (cases res) (simp_all add: m mutateOperands_Imm_right strip_isFloatImmOne)
qed

subsection \<open>The operator factory\<close>

text \<open>
  C9, as the source has it. For each of the eleven kinds of its switch,
  \<^verbatim>\<open>newBinaryOpOfType\<close> allocates a node of that kind and does not fail. For a
  kind outside the switch it throws \<^verbatim>\<open>unsupported_dtype\<close>, the same condition
  that \<^verbatim>\<open>evaluateOp\<close> throws, not a condition of its own.
\<close>

theorem newBinaryOpOfType_total_on_enumeration:
  "newBinaryOpOfType kOther lhs rhs option s = (Inl unsupported_dtype, s)
   \<and> (k \<noteq> kOther \<longrightarrow>
        (\<exists>c. expr_type c = k \<and>
             newBinaryOpOfType k lhs rhs option s
               = (Inr (BinaryOp (next_addr s) c lhs rhs), alloc s)))"
  by (cases k)
     (auto simp: newBinaryOp_def intro: exI [of _ "MaxOp option"] exI [of _ "MinOp option"])

theorem newBinaryOpOfType_total_on_enumeration_witness:
  "kMax \<noteq> kOther
   \<and> newBinaryOpOfType kMax (Imm 0 FloatT 5) (Imm 1 FloatT 6) True s0
       = (Inr (BinaryOp 100 (MaxOp True) (Imm 0 FloatT 5) (Imm 1 FloatT 6)), alloc s0)
   \<and> newBinaryOpOfType kOther (Imm 0 FloatT 5) (Imm 1 FloatT 6) True s0
       = (Inl unsupported_dtype, s0)"
  using newBinaryOpOfType_total_on_enumeration
          [of "Imm 0 FloatT 5" "Imm 1 FloatT 6" True s0 kMax]
  by (simp add: newBinaryOp_def s0_def)

text \<open>
  The claim as stated fails: asked for a kind outside the enumeration, the factory does
  not raise the unsupported-operator condition.
\<close>

theorem newBinaryOpOfType_not_unsupported_operator:
  "newBinaryOpOfType kOther (Imm 0 IntT 1) (Imm 1 IntT 2) False s0
     \<noteq> (Inl unsupported_operator, s0)"
  by simp

subsection \<open>Casts\<close>

text \<open>
  C10. A cast whose source is not constant is returned as it is: the result is the
  original node, no node is allocated and the evaluator is not called, so nothing below
  the cast is visited.
\<close>

theorem mutate_Cast_nonconstant:
  "\<not> isConstant src \<Longrightarrow> mutate ev (Cast a dt src) s = (Inr (Cast a dt src), s)"
  by simp

theorem mutate_Cast_nonconstant_witness:
  "\<not> isConstant (BinaryOp 3 AddOp (VarE (Var 0 ''x'' (Dtype IntT 1)))
        (BinaryOp 2 AddOp (Imm 0 IntT 1) (Imm 1 IntT 2)))
   \<and> mutate ev0 (Cast 4 (Dtype FloatT 1) (BinaryOp 3 AddOp (VarE (Var 0 ''x'' (Dtype IntT 1)))
        (BinaryOp 2 AddOp (Imm 0 IntT 1) (Imm 1 IntT 2)))) s0
     = (Inr (Cast 4 (Dtype FloatT 1) (BinaryOp 3 AddOp (VarE (Var 0 ''x'' (Dtype IntT 1)))
        (BinaryOp 2 AddOp (Imm 0 IntT 1) (Imm 1 IntT 2)))), s0)"
  using mutate_Cast_nonconstant [of "BinaryOp 3 AddOp (VarE (Var 0 ''x'' (Dtype IntT 1)))
        (BinaryOp 2 AddOp (Imm 0 IntT 1) (Imm 1 IntT 2))" ev0 4 "Dtype FloatT 1" s0]
  by simp

text \<open>
  C3, at an input where the code and the claim part. The source of the cast below is not
  constant, but folding it gives the constant \<open>IntImm 5\<close>. The rule for casts does not
  fold the source: it tests the source as it stands and returns the cast, where the claim
  has the folded source evaluated to an immediate.
\<close>

theorem cast_source_not_folded:
  "\<not> isConstant (BinaryOp 5 AddOp (Broadcast 1 (Imm 0 IntT 0) 1) (Imm 3 IntT 5))
   \<and> mutate ev0 (BinaryOp 5 AddOp (Broadcast 1 (Imm 0 IntT 0) 1) (Imm 3 IntT 5)) s0
       = (Inr (Imm 3 IntT 5), s0)
   \<and> isConstant (Imm 3 IntT 5)
   \<and> mutate ev0 (Cast 9 (Dtype IntT 1)
                   (BinaryOp 5 AddOp (Broadcast 1 (Imm 0 IntT 0) 1) (Imm 3 IntT 5))) s0
       = (Inr (Cast 9 (Dtype IntT 1)
                   (BinaryOp 5 AddOp (Broadcast 1 (Imm 0 IntT 0) 1) (Imm 3 IntT 5))), s0)"
  by (simp add: mutateOperands_def)


subsection \<open>Identity eliminations\<close>

lemma float_operand_not_int_one:
  assumes "well_typed x" and "dtype x = Dtype FloatT 1"
  shows "\<forall>x' s1. mutate ev x s = (Inr x', s1) \<longrightarrow> \<not> isIntImm x' 1"
proof (intro allI impI)
  fix x' s1
  assume m: "mutate ev x s = (Inr x', s1)"
  from mutate_keeps_type [OF assms(1) m] have "dtype x' = Dtype FloatT 1"
    by (simp add: keeps_type_def assms(2))
  then show "\<not> isIntImm x' 1" by (cases x') auto
qed

text \<open>
  C2. Folding \<open>0 + x\<close>, \<open>x + 0\<close>, \<open>1 * x\<close>, \<open>x * 1\<close>, \<open>x - 0\<close> and \<open>x / 1\<close>
  (integer immediates) has the same outcome as folding \<open>x\<close>: a structurally equal node,
  or the same exception, and the same final state, hence the same history of evaluator
  calls, so the operand is eliminated without a call of the evaluator on the operator
  node. The same holds for \<open>1.0 * x\<close> and \<open>x * 1.0\<close> with the float immediate, the
  product being a well-typed node: its operands have the same dtype.
\<close>

theorem identity_eliminations:
  "same_outcome (mutate ev (BinaryOp a AddOp (Imm c IntT 0) x) s) (mutate ev x s)
   \<and> same_outcome (mutate ev (BinaryOp a AddOp x (Imm c IntT 0)) s) (mutate ev x s)
   \<and> same_outcome (mutate ev (BinaryOp a MulOp (Imm c IntT 1) x) s) (mutate ev x s)
   \<and> same_outcome (mutate ev (BinaryOp a MulOp x (Imm c IntT 1)) s) (mutate ev x s)
   \<and> same_outcome (mutate ev (BinaryOp a SubOp x (Imm c IntT 0)) s) (mutate ev x s)
   \<and> same_outcome (mutate ev (BinaryOp a DivOp x (Imm c IntT 1)) s) (mutate ev x s)
   \<and> (well_typed (BinaryOp a MulOp (Imm c FloatT 0x3F800000) x) \<longrightarrow>
        same_outcome (mutate ev (BinaryOp a MulOp (Imm c FloatT 0x3F800000) x) s)
          (mutate ev x s))
   \<and> (well_typed (BinaryOp a MulOp x (Imm c FloatT 0x3F800000)) \<longrightarrow>
        same_outcome (mutate ev (BinaryOp a MulOp x (Imm c FloatT 0x3F800000)) s)
          (mutate ev x s))"
proof -
  have left: "same_outcome (mutate ev (BinaryOp a MulOp (Imm c FloatT 0x3F800000) x) s)
                (mutate ev x s)"
    if "well_typed (BinaryOp a MulOp (Imm c FloatT 0x3F800000) x)"
  proof -
    from that have "well_typed x" "dtype x = Dtype FloatT 1" by simp_all
    then have "\<forall>x' s1. mutate ev x s = (Inr x', s1) \<longrightarrow> \<not> isIntImm x' 1"
      by (rule float_operand_not_int_one)
    then show ?thesis by (rule float_identities(1))
  qed
  have right: "same_outcome (mutate ev (BinaryOp a MulOp x (Imm c FloatT 0x3F800000)) s)
                 (mutate ev x s)"
    if "well_typed (BinaryOp a MulOp x (Imm c FloatT 0x3F800000))"
  proof -
    from that have "well_typed x" "dtype x = Dtype FloatT 1" by simp_all
    then have "\<forall>x' s1. mutate ev x s = (Inr x', s1) \<longrightarrow> \<not> isIntImm x' 1"
      by (rule float_operand_not_int_one)
    then show ?thesis by (rule float_identities(2))
  qed
  from left right
    integer_identities [where ev = ev and a = a and c = c and x = x and s = s]
  show ?thesis by blast
qed

theorem identity_eliminations_witness:
  "well_typed (BinaryOp 3 MulOp (Imm 2 FloatT 0x3F800000)
                 (VarE (Var 1 ''x'' (Dtype FloatT 1))))
   \<and> well_typed (BinaryOp 3 MulOp (VarE (Var 1 ''x'' (Dtype FloatT 1)))
                 (Imm 2 FloatT 0x3F800000))
   \<and> same_outcome
        (mutate ev0 (BinaryOp 3 MulOp (Imm 2 FloatT 0x3F800000)
                       (VarE (Var 1 ''x'' (Dtype FloatT 1)))) s0)
        (mutate ev0 (VarE (Var 1 ''x'' (Dtype FloatT 1))) s0)
   \<and> same_outcome
        (mutate ev0 (BinaryOp 3 MulOp (VarE (Var 1 ''x'' (Dtype FloatT 1)))
                       (Imm 2 FloatT 0x3F800000)) s0)
        (mutate ev0 (VarE (Var 1 ''x'' (Dtype FloatT 1))) s0)
   \<and> same_outcome
        (mutate ev0 (BinaryOp 3 AddOp (VarE (Var 1 ''x'' (Dtype FloatT 1)))
                       (Imm 2 IntT 0)) s0)
        (mutate ev0 (VarE (Var 1 ''x'' (Dtype FloatT 1))) s0)
   \<and> mutate ev0 (BinaryOp 3 MulOp (Imm 2 FloatT 0x3F800000)
                       (VarE (Var 1 ''x'' (Dtype FloatT 1)))) s0
       = (Inr (VarE (Var 1 ''x'' (Dtype FloatT 1))), s0)"
  using identity_eliminations [of ev0 3 2 "VarE (Var 1 ''x'' (Dtype FloatT 1))" s0]
  by (simp add: mutateOperands_def)

subsection \<open>Loads\<close>

text \<open>
  C6. When folding a load returns a node, that node is never an immediate: the index is
  folded, then the mask, the base handle is passed on as it is, and the result is the
  original load, with no allocation, when both folded operands are the original pointers,
  and a new load of the same dtype and base handle around the folded operands otherwise.
\<close>

theorem mutate_Load_result:
  "mutate ev (Load a dt h i m) s = (Inr e', s') \<longrightarrow>
     \<not> isImm e'
     \<and> (\<exists>ni nm s1 s2.
           mutate ev i s = (Inr ni, s1) \<and> mutate ev m s1 = (Inr nm, s2)
           \<and> (if addr ni = addr i \<and> addr nm = addr m
               then e' = Load a dt h i m \<and> s' = s2
               else e' = Load (next_addr s2) dt h ni nm \<and> s' = alloc s2))"
  by (auto simp: mutateOperands_def split: prod.splits sum.splits if_splits)

theorem mutate_Load_result_witness:
  "mutate ev0 (Load 4 (Dtype FloatT 1) (Var 0 ''buf'' (Dtype FloatT 1))
                 (VarE (Var 1 ''i'' (Dtype IntT 1))) (Imm 2 IntT 1)) s0
     = (Inr (Load 4 (Dtype FloatT 1) (Var 0 ''buf'' (Dtype FloatT 1))
                 (VarE (Var 1 ''i'' (Dtype IntT 1))) (Imm 2 IntT 1)), s0)
   \<and> \<not> isImm (Load 4 (Dtype FloatT 1) (Var 0 ''buf'' (Dtype FloatT 1))
                 (VarE (Var 1 ''i'' (Dtype IntT 1))) (Imm 2 IntT 1))"
  using mutate_Load_result [of ev0 4 "Dtype FloatT 1" "Var 0 ''buf'' (Dtype FloatT 1)"
      "VarE (Var 1 ''i'' (Dtype IntT 1))" "Imm 2 IntT 1" s0
      "Load 4 (Dtype FloatT 1) (Var 0 ''buf'' (Dtype FloatT 1))
                 (VarE (Var 1 ''i'' (Dtype IntT 1))) (Imm 2 IntT 1)" s0]
  by (simp add: mutateOperands_def)

subsection \<open>A broadcast added to a ramp\<close>

text \<open>
  C5, as the source has it. When the folded operands of an \<open>Add\<close> are a broadcast
  of \<open>b\<close> and a ramp, in either order: if \<open>b\<close> is not the integer immediate 0, the
  rule allocates the sum of \<open>b\<close> and the ramp's base, allocates a ramp around it with
  the stride and lanes of the old one, and returns the result of folding that new ramp;
  if \<open>b\<close> is the integer immediate 0, the rule returns the ramp operand itself, in the
  state reached after folding the operands: it builds nothing and folds nothing again.
\<close>

theorem add_broadcast_ramp_refold:
  "mutateOperands (mutate ev) l r s = (Inr (lhs, rhs), s2) \<longrightarrow>
     (lhs = Broadcast ab b n \<and> rhs = Ramp ar base stride ln
       \<or> lhs = Ramp ar base stride ln \<and> rhs = Broadcast ab b n) \<longrightarrow>
     mutate ev (BinaryOp a AddOp l r) s
       = (if isIntImm b 0 then (Inr (Ramp ar base stride ln), s2)
          else mutate ev
                 (Ramp (Suc (next_addr s2)) (BinaryOp (next_addr s2) AddOp b base) stride ln)
                 (alloc (alloc s2)))"
  by (auto simp: makeRamp_def)

theorem add_broadcast_ramp_refold_witness:
  "mutateOperands (mutate ev0) (Broadcast 1 (Imm 0 IntT 5) 4)
       (Ramp 4 (VarE (Var 2 ''i'' (Dtype IntT 1))) (Imm 3 IntT 1) 4) s0
     = (Inr (Broadcast 1 (Imm 0 IntT 5) 4,
             Ramp 4 (VarE (Var 2 ''i'' (Dtype IntT 1))) (Imm 3 IntT 1) 4), s0)
   \<and> \<not> isIntImm (Imm 0 IntT 5) 0
   \<and> mutate ev0 (BinaryOp 5 AddOp (Broadcast 1 (Imm 0 IntT 5) 4)
                   (Ramp 4 (VarE (Var 2 ''i'' (Dtype IntT 1))) (Imm 3 IntT 1) 4)) s0
     = (Inr (Ramp 101 (BinaryOp 100 AddOp (Imm 0 IntT 5) (VarE (Var 2 ''i'' (Dtype IntT 1))))
               (Imm 3 IntT 1) 4),
        alloc (alloc s0))
   \<and> mutateOperands (mutate ev0) (Ramp 4 (VarE (Var 2 ''i'' (Dtype IntT 1))) (Imm 3 IntT 1) 4)
       (Broadcast 1 (Imm 0 IntT 0) 4) s0
     = (Inr (Ramp 4 (VarE (Var 2 ''i'' (Dtype IntT 1))) (Imm 3 IntT 1) 4,
             Broadcast 1 (Imm 0 IntT 0) 4), s0)
   \<and> isIntImm (Imm 0 IntT 0) 0
   \<and> mutate ev0 (BinaryOp 5 AddOp (Ramp 4 (VarE (Var 2 ''i'' (Dtype IntT 1))) (Imm 3 IntT 1) 4)
                   (Broadcast 1 (Imm 0 IntT 0) 4)) s0
     = (Inr (Ramp 4 (VarE (Var 2 ''i'' (Dtype IntT 1))) (Imm 3 IntT 1) 4), s0)"
proof -
  let ?i = "VarE (Var 2 ''i'' (Dtype IntT 1))"
  let ?ramp = "Ramp 4 ?i (Imm 3 IntT 1) 4"
  have ops5: "mutateOperands (mutate ev0) (Broadcast 1 (Imm 0 IntT 5) 4) ?ramp s0
                = (Inr (Broadcast 1 (Imm 0 IntT 5) 4, ?ramp), s0)"
    by (simp add: mutateOperands_def)
  have ops0: "mutateOperands (mutate ev0) ?ramp (Broadcast 1 (Imm 0 IntT 0) 4) s0
                = (Inr (?ramp, Broadcast 1 (Imm 0 IntT 0) 4), s0)"
    by (simp add: mutateOperands_def)
  have new: "mutate ev0 (Ramp (Suc (next_addr s0)) (BinaryOp (next_addr s0) AddOp (Imm 0 IntT 5) ?i)
                          (Imm 3 IntT 1) 4) (alloc (alloc s0))
               = (Inr (Ramp 101 (BinaryOp 100 AddOp (Imm 0 IntT 5) ?i) (Imm 3 IntT 1) 4),
                  alloc (alloc s0))"
    by (simp add: mutateOperands_def rebuildAndEvaluate_def s0_def alloc_def)
  from add_broadcast_ramp_refold [of ev0 "Broadcast 1 (Imm 0 IntT 5) 4" ?ramp s0
      "Broadcast 1 (Imm 0 IntT 5) 4" ?ramp s0 1 "Imm 0 IntT 5" 4 4 ?i "Imm 3 IntT 1" 4 5]
    ops5 new
  have five: "mutate ev0 (BinaryOp 5 AddOp (Broadcast 1 (Imm 0 IntT 5) 4) ?ramp) s0
               = (Inr (Ramp 101 (BinaryOp 100 AddOp (Imm 0 IntT 5) ?i) (Imm 3 IntT 1) 4),
                  alloc (alloc s0))"
    by simp
  from add_broadcast_ramp_refold [of ev0 ?ramp "Broadcast 1 (Imm 0 IntT 0) 4" s0
      ?ramp "Broadcast 1 (Imm 0 IntT 0) 4" s0 1 "Imm 0 IntT 0" 4 4 ?i "Imm 3 IntT 1" 4 5]
    ops0
  have zero: "mutate ev0 (BinaryOp 5 AddOp ?ramp (Broadcast 1 (Imm 0 IntT 0) 4)) s0
               = (Inr ?ramp, s0)"
    by simp
  from ops5 ops0 five zero show ?thesis by simp
qed

text \<open>
  The claim as stated fails when \<open>b\<close> is the integer immediate 0: the test for a
  broadcast of 0 comes first and returns the ramp operand itself. No node is built and
  nothing is folded again, which shows in the address of the result and in the state.
\<close>

theorem add_broadcast_zero_ramp_not_rebuilt:
  "mutateOperands (mutate ev0) (Broadcast 1 (Imm 0 IntT 0) 4)
       (Ramp 4 (VarE (Var 2 ''i'' (Dtype IntT 1))) (Imm 3 IntT 1) 4) s0
     = (Inr (Broadcast 1 (Imm 0 IntT 0) 4,
             Ramp 4 (VarE (Var 2 ''i'' (Dtype IntT 1))) (Imm 3 IntT 1) 4), s0)
   \<and> mutate ev0 (BinaryOp 5 AddOp (Broadcast 1 (Imm 0 IntT 0) 4)
                   (Ramp 4 (VarE (Var 2 ''i'' (Dtype IntT 1))) (Imm 3 IntT 1) 4)) s0
     \<noteq> mutate ev0 (Ramp (Suc (next_addr s0))
                     (BinaryOp (next_addr s0) AddOp (Imm 0 IntT 0)
                        (VarE (Var 2 ''i'' (Dtype IntT 1))))
                     (Imm 3 IntT 1) 4) (alloc (alloc s0))"
  by (simp add: mutateOperands_def s0_def alloc_def)

subsection \<open>Calls of the evaluator\<close>

text \<open>
  C4. In every run on a well-formed node, whether it returns or throws, each node handed
  to \<^verbatim>\<open>evaluateOp\<close> is a binary node with two constant operands, a cast with a
  constant source, or a pure intrinsic call with constant parameters.
\<close>

theorem evaluateOp_only_on_constant_operands:
  assumes "well_formed e s" and "mutate ev e s = (res, s')"
  shows "\<exists>calls. evaluated s' = evaluated s @ calls \<and> list_all evaluation_allowed calls"
proof -
  from assms(1) obtain H where "in_heap H e" "heap_ok H s"
    using well_formed_heap by blast
  from this assms(2) have "traced s s'" by (rule mutate_traced)
  then show ?thesis by (simp add: traced_def)
qed

theorem evaluateOp_only_on_constant_operands_witness:
  "well_formed (BinaryOp 4 AddOp (VarE (Var 0 ''x'' (Dtype IntT 1)))
                  (BinaryOp 3 MulOp (Imm 1 IntT 2) (Imm 2 IntT 3))) s0
   \<and> mutate ev0 (BinaryOp 4 AddOp (VarE (Var 0 ''x'' (Dtype IntT 1)))
                  (BinaryOp 3 MulOp (Imm 1 IntT 2) (Imm 2 IntT 3))) s0
       = (Inr (BinaryOp 101 AddOp (VarE (Var 0 ''x'' (Dtype IntT 1))) (Imm 100 IntT 7)),
          \<lparr>next_addr = 102, evaluated = [BinaryOp 3 MulOp (Imm 1 IntT 2) (Imm 2 IntT 3)]\<rparr>)
   \<and> (\<exists>calls. [BinaryOp 3 MulOp (Imm 1 IntT 2) (Imm 2 IntT 3)] = evaluated s0 @ calls
          \<and> list_all evaluation_allowed calls)"
proof -
  let ?e = "BinaryOp 4 AddOp (VarE (Var 0 ''x'' (Dtype IntT 1)))
                  (BinaryOp 3 MulOp (Imm 1 IntT 2) (Imm 2 IntT 3))"
  let ?s = "\<lparr>next_addr = 102, evaluated = [BinaryOp 3 MulOp (Imm 1 IntT 2) (Imm 2 IntT 3)]\<rparr>"
  have wf: "well_formed ?e s0" by (simp add: well_formed_def s0_def)
  have run: "mutate ev0 ?e s0
       = (Inr (BinaryOp 101 AddOp (VarE (Var 0 ''x'' (Dtype IntT 1))) (Imm 100 IntT 7)), ?s)"
    by (simp add: mutateOperands_def rebuildAndEvaluate_def evaluateOp_def newBinaryOp_def
          s0_def alloc_def ev0_def)
  from evaluateOp_only_on_constant_operands [OF wf run] wf run show ?thesis by simp
qed

subsection \<open>Idempotence\<close>

text \<open>
  C7. When folding a well-formed node returns a node, folding that node again returns the
  very same node and changes nothing: the second pass allocates no node and calls the
  evaluator on nothing. In particular the two results are structurally equal.
\<close>

theorem mutate_idempotent:
  assumes "well_formed e s" and "mutate ev e s = (Inr e', s')"
  shows "mutate ev e' s' = (Inr e', s')"
proof -
  from assms(1) obtain H where "in_heap H e" "heap_ok H s"
    using well_formed_heap by blast
  from this assms(2) have "stable ev e'" by (rule mutate_stable)
  then show ?thesis by (rule stableD)
qed

theorem mutate_idempotent_witness:
  "well_formed (BinaryOp 4 AddOp (VarE (Var 0 ''x'' (Dtype IntT 1)))
                  (BinaryOp 3 MulOp (Imm 1 IntT 2) (Imm 2 IntT 3))) s0
   \<and> mutate ev0 (BinaryOp 4 AddOp (VarE (Var 0 ''x'' (Dtype IntT 1)))
                  (BinaryOp 3 MulOp (Imm 1 IntT 2) (Imm 2 IntT 3))) s0
       = (Inr (BinaryOp 101 AddOp (VarE (Var 0 ''x'' (Dtype IntT 1))) (Imm 100 IntT 7)),
          \<lparr>next_addr = 102, evaluated = [BinaryOp 3 MulOp (Imm 1 IntT 2) (Imm 2 IntT 3)]\<rparr>)
   \<and> mutate ev0 (BinaryOp 101 AddOp (VarE (Var 0 ''x'' (Dtype IntT 1))) (Imm 100 IntT 7))
         \<lparr>next_addr = 102, evaluated = [BinaryOp 3 MulOp (Imm 1 IntT 2) (Imm 2 IntT 3)]\<rparr>
       = (Inr (BinaryOp 101 AddOp (VarE (Var 0 ''x'' (Dtype IntT 1))) (Imm 100 IntT 7)),
          \<lparr>next_addr = 102, evaluated = [BinaryOp 3 MulOp (Imm 1 IntT 2) (Imm 2 IntT 3)]\<rparr>)"
proof -
  let ?e = "BinaryOp 4 AddOp (VarE (Var 0 ''x'' (Dtype IntT 1)))
                  (BinaryOp 3 MulOp (Imm 1 IntT 2) (Imm 2 IntT 3))"
  let ?s = "\<lparr>next_addr = 102, evaluated = [BinaryOp 3 MulOp (Imm 1 IntT 2) (Imm 2 IntT 3)]\<rparr>"
  have wf: "well_formed ?e s0" by (simp add: well_formed_def s0_def)
  have run: "mutate ev0 ?e s0
       = (Inr (BinaryOp 101 AddOp (VarE (Var 0 ''x'' (Dtype IntT 1))) (Imm 100 IntT 7)), ?s)"
    by (simp add: mutateOperands_def rebuildAndEvaluate_def evaluateOp_def newBinaryOp_def
          s0_def alloc_def ev0_def)
  from mutate_idempotent [OF wf run] wf run show ?thesis by simp
qed

subsection \<open>Full-constant collapse\<close>

text \<open>
  C1, as the source has it. With an evaluator that is compositional and respects the
  identities, folding a constant expression whose binary operators have operands of one
  scalar type, and whose evaluated nodes have a scalar type of the evaluation switch,
  returns a single immediate: of the scalar type of the expression, with the value that
  the evaluator gives for the expression. A cast of a constant source to a scalar type
  outside the evaluation switch is not collapsed: folding it hands the cast to the
  evaluator and throws \<^verbatim>\<open>unsupported_dtype\<close>.
\<close>

theorem constant_expression_collapses:
  "(collapsible e \<and> compositional ev \<and> respects_identities ev \<longrightarrow>
      (\<exists>a s'. mutate ev e s = (Inr (Imm a (scalar_type (dtype e)) (ev e)), s')))
   \<and> (isConstant src \<and> \<not> supported (scalar_type dt) \<longrightarrow>
        mutate ev (Cast c dt src) s
          = (Inl unsupported_dtype, s\<lparr>evaluated := evaluated s @ [Cast c dt src]\<rparr>))"
proof (intro conjI impI)
  assume "collapsible e \<and> compositional ev \<and> respects_identities ev"
  then have "\<exists>x s'. mutate ev e s = (Inr x, s') \<and> immediate_of ev e x"
    using constant_collapse [of ev e s] by blast
  then show "\<exists>a s'. mutate ev e s = (Inr (Imm a (scalar_type (dtype e)) (ev e)), s')"
    by (auto simp: immediate_of_def)
next
  assume "isConstant src \<and> \<not> supported (scalar_type dt)"
  then show "mutate ev (Cast c dt src) s
          = (Inl unsupported_dtype, s\<lparr>evaluated := evaluated s @ [Cast c dt src]\<rparr>)"
    by (simp add: evaluateOp_def)
qed

theorem constant_expression_collapses_witness:
  "collapsible (BinaryOp 5 AddOp (BinaryOp 2 MulOp (Imm 0 IntT 2) (Imm 1 IntT 3))
                  (Cast 4 (Dtype IntT 1) (Imm 3 LongT 4)))
   \<and> compositional int_eval \<and> respects_identities int_eval
   \<and> (\<exists>a s'. mutate int_eval
                 (BinaryOp 5 AddOp (BinaryOp 2 MulOp (Imm 0 IntT 2) (Imm 1 IntT 3))
                    (Cast 4 (Dtype IntT 1) (Imm 3 LongT 4))) s0
               = (Inr (Imm a IntT 10), s'))
   \<and> isConstant (Imm 3 LongT 4) \<and> \<not> supported (scalar_type (Dtype UndefinedT 1))
   \<and> mutate int_eval (Cast 4 (Dtype UndefinedT 1) (Imm 3 LongT 4)) s0
       = (Inl unsupported_dtype,
          \<lparr>next_addr = 100, evaluated = [Cast 4 (Dtype UndefinedT 1) (Imm 3 LongT 4)]\<rparr>)"
proof -
  let ?e = "BinaryOp 5 AddOp (BinaryOp 2 MulOp (Imm 0 IntT 2) (Imm 1 IntT 3))
                  (Cast 4 (Dtype IntT 1) (Imm 3 LongT 4))"
  have c: "collapsible ?e" by simp
  from constant_expression_collapses
         [of ?e int_eval s0 "Imm 3 LongT 4" "Dtype UndefinedT 1" 4]
  show ?thesis
    using c compositional_int_eval respects_identities_int_eval by (simp add: s0_def)
qed

text \<open>
  The claim as stated fails for a constant expression whose scalar type is outside the
  evaluation switch: folding a cast of an integer immediate to \<open>Bool\<close> throws
  \<^verbatim>\<open>unsupported_dtype\<close> and returns no node.
\<close>

theorem unsupported_scalar_type_throws:
  "isConstant (Cast 1 (Dtype BoolT 1) (Imm 0 IntT 1))
   \<and> mutate ev0 (Cast 1 (Dtype BoolT 1) (Imm 0 IntT 1)) s0
       = (Inl unsupported_dtype,
          \<lparr>next_addr = 100, evaluated = [Cast 1 (Dtype BoolT 1) (Imm 0 IntT 1)]\<rparr>)"
  by (simp add: evaluateOp_def s0_def)

subsection \<open>The dtype of the result\<close>

text \<open>
  C8. When folding a well-typed node returns a node, the result has
  the element type and the lane count of the input, whether it is the node itself, a
  rebuilt node, an operand returned by an identity rule, the re-folded ramp or the
  immediate that the evaluator produced.
\<close>

theorem mutate_keeps_dtype:
  assumes "well_typed e" and "mutate ev e s = (Inr e', s')"
  shows "scalar_type (dtype e') = scalar_type (dtype e) \<and> lanes (dtype e') = lanes (dtype e)"
  using mutate_keeps_type [OF assms] by (simp add: keeps_type_def)

theorem mutate_keeps_dtype_witness:
  "well_typed (BinaryOp 5 AddOp (Broadcast 1 (Imm 0 IntT 5) 4)
                 (Ramp 4 (VarE (Var 2 ''i'' (Dtype IntT 1))) (Imm 3 IntT 1) 4))
   \<and> mutate ev0 (BinaryOp 5 AddOp (Broadcast 1 (Imm 0 IntT 5) 4)
                   (Ramp 4 (VarE (Var 2 ''i'' (Dtype IntT 1))) (Imm 3 IntT 1) 4)) s0
     = (Inr (Ramp 101 (BinaryOp 100 AddOp (Imm 0 IntT 5) (VarE (Var 2 ''i'' (Dtype IntT 1))))
               (Imm 3 IntT 1) 4),
        alloc (alloc s0))
   \<and> dtype (Ramp 101 (BinaryOp 100 AddOp (Imm 0 IntT 5) (VarE (Var 2 ''i'' (Dtype IntT 1))))
               (Imm 3 IntT 1) 4) = Dtype IntT 4
   \<and> dtype (BinaryOp 5 AddOp (Broadcast 1 (Imm 0 IntT 5) 4)
                 (Ramp 4 (VarE (Var 2 ''i'' (Dtype IntT 1))) (Imm 3 IntT 1) 4)) = Dtype IntT 4"
proof -
  let ?e = "BinaryOp 5 AddOp (Broadcast 1 (Imm 0 IntT 5) 4)
                 (Ramp 4 (VarE (Var 2 ''i'' (Dtype IntT 1))) (Imm 3 IntT 1) 4)"
  let ?r = "Ramp 101 (BinaryOp 100 AddOp (Imm 0 IntT 5) (VarE (Var 2 ''i'' (Dtype IntT 1))))
               (Imm 3 IntT 1) 4"
  have wt: "well_typed ?e" by simp
  have run: "mutate ev0 ?e s0 = (Inr ?r, alloc (alloc s0))"
    by (simp add: mutateOperands_def makeRamp_def rebuildAndEvaluate_def s0_def alloc_def)
  from mutate_keeps_dtype [OF wt run] wt run show ?thesis by simp
qed

end
